theory Spec2Isabelle
  imports Main "HOL-Library.Word"
begin

section \<open>The batch training loop of chainerrl/experiments/train_agent_batch.py\<close>

text \<open>
  The function \<^verbatim>\<open>train_agent_batch\<close> drives an agent against a vectorized environment.
  The agent, the environment, the evaluator, the logger, the step hooks and
  \<^verbatim>\<open>save_agent\<close> are collaborators whose code lives elsewhere. They are parameters of the
  model: each is a function on an abstract world \<open>'w\<close> (the state of every object outside the
  loop, so that an evaluator sharing the training environment is covered) that returns
  either a value or the exception it raises, together with the world it leaves behind.
  Every call the loop makes to a collaborator is appended to a trace, so that statements
  such as "save_agent is invoked exactly once" are statements about that trace.

  A \<^verbatim>\<open>KeyboardInterrupt\<close> is delivered between two bytecodes; the model lets it arrive at
  the calls to collaborators (a call may return \<open>KeyboardInterrupt\<close>), which are the only
  points where the trace and the world can tell the difference. The second function of the
  file, \<^verbatim>\<open>train_agent_batch_with_evaluation\<close>, builds an \<^verbatim>\<open>Evaluator\<close> and calls
  \<^verbatim>\<open>train_agent_batch\<close>; it adds nothing to the loop and is not modelled.
\<close>

subsection \<open>Exceptions, events, collaborators\<close>

text \<open>
  \<^verbatim>\<open>except (Exception, KeyboardInterrupt)\<close> catches the instances of \<^verbatim>\<open>Exception\<close> and
  \<^verbatim>\<open>KeyboardInterrupt\<close>; \<open>SystemExit\<close> stands for the \<^verbatim>\<open>BaseException\<close> subclasses
  outside both (\<^verbatim>\<open>SystemExit\<close>, \<^verbatim>\<open>GeneratorExit\<close>), which that clause lets through.
  The string of \<open>Exception\<close> identifies the exception object.
\<close>

datatype raised = Exception string | KeyboardInterrupt | SystemExit

fun caught :: "raised \<Rightarrow> bool" where
  "caught (Exception msg) = True"
| "caught KeyboardInterrupt = True"
| "caught SystemExit = False"

datatype event =
    EnvReset "bool list option"
  | BatchActAndTrain
  | EnvStep
  | BatchObserveAndTrain "bool list" "bool list"
  | Hook nat int
  | LoggerInfo
  | GetStatistics
  | EvaluateIfNecessary int int
  | SaveAgent int string
  | EnvClose
  | EvaluatorEnvClose

text \<open>
  How the \<^verbatim>\<open>while\<close> loop was left: its condition became false, or the \<^verbatim>\<open>break\<close> of
  line 115 ran. Python returns \<^verbatim>\<open>None\<close> in both cases; the tag only records the path.
\<close>

datatype exit = BudgetExhausted | SuccessThreshold

record ('w, 'r) evaluator_ops =
  evaluate_if_necessary :: "int \<Rightarrow> int \<Rightarrow> 'w \<Rightarrow> (raised + bool) \<times> 'w"
  max_score :: "'w \<Rightarrow> 'r"
  evaluator_env_close :: "'w \<Rightarrow> (raised + unit) \<times> 'w"

text \<open>
  The arguments of \<^verbatim>\<open>train_agent_batch\<close> (lines 19-22) with the methods of the objects
  passed in. \<open>'o\<close> is a batch of observations, \<open>'a\<close> a batch of actions, \<open>'r\<close> the type of
  rewards and scores (a float in the source; the loop only adds rewards, stores zero and
  compares scores, so the type is left open). \<open>agent_t\<close> is the setter of \<^verbatim>\<open>agent.t\<close>,
  \<open>None\<close> when \<^verbatim>\<open>hasattr(agent, 't')\<close> is false. \<^verbatim>\<open>outdir\<close>, \<^verbatim>\<open>eval_interval\<close> and the
  text of the log messages do not influence the control flow and are left out.
\<close>

record ('w, 'o, 'a, 'r) args =
  num_envs :: int
  env_reset :: "bool list option \<Rightarrow> 'w \<Rightarrow> (raised + 'o) \<times> 'w"
  env_step :: "'a \<Rightarrow> 'w \<Rightarrow> (raised + 'o \<times> 'r list \<times> bool list) \<times> 'w"
  env_close :: "'w \<Rightarrow> (raised + unit) \<times> 'w"
  batch_act_and_train :: "'o \<Rightarrow> 'w \<Rightarrow> (raised + 'a) \<times> 'w"
  batch_observe_and_train ::
    "'o \<Rightarrow> 'r list \<Rightarrow> bool list \<Rightarrow> bool list \<Rightarrow> 'w \<Rightarrow> (raised + unit) \<times> 'w"
  get_statistics :: "'w \<Rightarrow> (raised + unit) \<times> 'w"
  agent_t :: "(int \<Rightarrow> 'w \<Rightarrow> 'w) option"
  logger_info :: "'w \<Rightarrow> (raised + unit) \<times> 'w"
  save_agent :: "int \<Rightarrow> string \<Rightarrow> 'w \<Rightarrow> (raised + unit) \<times> 'w"
  evaluator :: "('w, 'r) evaluator_ops option"
  steps :: int
  log_interval :: "int option"
  max_episode_len :: "int option"
  step_offset :: int
  successful_score :: "'r option"
  step_hooks :: "(int \<Rightarrow> 'w \<Rightarrow> (raised + unit) \<times> 'w) list"
  return_window_size :: int

text \<open>
  The local variables of the function that live across iterations (lines 45-56), the
  world and the trace. \<^verbatim>\<open>episode_idx\<close> and \<^verbatim>\<open>episode_len\<close> are numpy arrays of dtype
  \<^verbatim>\<open>'i'\<close>: 32-bit signed integers that wrap around.
\<close>

record ('w, 'r) state =
  world :: 'w
  trace :: "event list"
  t :: int
  episode_r :: "'r list"
  episode_idx :: "32 word list"
  episode_len :: "32 word list"
  recent_returns :: "'r list"

subsection \<open>Sequencing calls that may raise\<close>

definition call ::
  "event \<Rightarrow> ('w \<Rightarrow> (raised + 'x) \<times> 'w) \<Rightarrow> ('w, 'r) state \<Rightarrow> (raised + 'x) \<times> ('w, 'r) state" where
  "call ev f s = (case f (world s) of (r, w') \<Rightarrow> (r, s\<lparr>world := w', trace := trace s @ [ev]\<rparr>))"

definition seq ::
  "('s \<Rightarrow> (raised + 'x) \<times> 's) \<Rightarrow> ('x \<Rightarrow> 's \<Rightarrow> (raised + 'y) \<times> 's) \<Rightarrow> 's \<Rightarrow> (raised + 'y) \<times> 's" where
  "seq m f s = (case m s of (Inl e, s') \<Rightarrow> (Inl e, s') | (Inr x, s') \<Rightarrow> f x s')"

definition raise :: "raised \<Rightarrow> 's \<Rightarrow> (raised + 'x) \<times> 's" where
  "raise e s = (Inl e, s)"

definition return :: "'x \<Rightarrow> 's \<Rightarrow> (raised + 'x) \<times> 's" where
  "return x s = (Inr x, s)"

subsection \<open>numpy and deque operations the loop uses\<close>

text \<open>
  numpy broadcasting of a one-dimensional operand against an array of shape \<open>(n,)\<close> that
  must keep its shape (\<^verbatim>\<open>episode_r += rs\<close>, \<^verbatim>\<open>episode_idx += end\<close>): an operand of length
  \<open>n\<close> is used as it is, one of length 1 is repeated, any other length raises ValueError.
\<close>

definition broadcast_to :: "nat \<Rightarrow> 'x list \<Rightarrow> 'x list option" where
  "broadcast_to n xs =
     (if length xs = n then Some xs
      else if length xs = 1 then Some (replicate n (hd xs))
      else None)"

text \<open>\<^verbatim>\<open>xs[mask]\<close> and \<^verbatim>\<open>xs[mask] = v\<close> for a boolean mask of the length of \<open>xs\<close>.\<close>

definition masked :: "'x list \<Rightarrow> bool list \<Rightarrow> 'x list" where
  "masked xs bs = map fst (filter snd (zip xs bs))"

definition mask_assign :: "'x list \<Rightarrow> bool list \<Rightarrow> 'x \<Rightarrow> 'x list" where
  "mask_assign xs bs v = map2 (\<lambda>x b. if b then v else x) xs bs"

text \<open>
  \<^verbatim>\<open>collections.deque(maxlen=n)\<close>: \<^verbatim>\<open>append\<close> adds on the right and, when the length then
  exceeds \<open>maxlen\<close>, drops the leftmost entry; \<^verbatim>\<open>extend\<close> appends the items one by one.
\<close>

definition deque_append :: "nat \<Rightarrow> 'x list \<Rightarrow> 'x \<Rightarrow> 'x list" where
  "deque_append maxlen d x = (let d' = d @ [x] in if maxlen < length d' then tl d' else d')"

definition deque_extend :: "nat \<Rightarrow> 'x list \<Rightarrow> 'x list \<Rightarrow> 'x list" where
  "deque_extend maxlen d xs = foldl (deque_append maxlen) d xs"

subsection \<open>The loop body, lines 62-115\<close>

text \<open>Lines 66-67: \<^verbatim>\<open>episode_r += rs; episode_len += 1\<close>, on a broadcast \<open>rs\<close>.\<close>

definition accumulate :: "'r::plus list \<Rightarrow> ('w, 'r) state \<Rightarrow> ('w, 'r) state" where
  "accumulate rs s =
     s\<lparr>episode_r := map2 (+) (episode_r s) rs,
       episode_len := map (\<lambda>l. l + 1) (episode_len s)\<rparr>"

text \<open>Lines 70-73: the truncation mask.\<close>

definition compute_resets :: "int option \<Rightarrow> nat \<Rightarrow> 32 word list \<Rightarrow> bool list" where
  "compute_resets mel n el =
     (case mel of
        None \<Rightarrow> replicate n False
      | Some m \<Rightarrow> map (\<lambda>l. sint l = m) el)"

text \<open>Lines 78-79.\<close>

definition end_mask :: "bool list \<Rightarrow> bool list \<Rightarrow> bool list" where
  "end_mask resets dones = map2 (\<or>) resets dones"

definition not_end_mask :: "bool list \<Rightarrow> bool list" where
  "not_end_mask ends = map Not ends"

text \<open>
  Lines 87-90: \<^verbatim>\<open>episode_idx += end; recent_returns.extend(episode_r[end]);
  episode_r[end] = 0; episode_len[end] = 0\<close>.
\<close>

definition finalize :: "nat \<Rightarrow> bool list \<Rightarrow> ('w, 'r::zero) state \<Rightarrow> ('w, 'r) state" where
  "finalize maxlen ends s =
     s\<lparr>episode_idx := map2 (\<lambda>k b. k + of_bool b) (episode_idx s) ends,
       recent_returns := deque_extend maxlen (recent_returns s) (masked (episode_r s) ends),
       episode_r := mask_assign (episode_r s) ends 0,
       episode_len := mask_assign (episode_len s) ends 0\<rparr>"

text \<open>Lines 95-96: the hooks, in list order, at the current \<^verbatim>\<open>t\<close>.\<close>

fun run_hooks ::
  "(int \<Rightarrow> 'w \<Rightarrow> (raised + unit) \<times> 'w) list \<Rightarrow> nat \<Rightarrow> ('w, 'r) state \<Rightarrow> (raised + unit) \<times> ('w, 'r) state" where
  "run_hooks [] i s = (Inr (), s)"
| "run_hooks (hook # hooks) i s =
     (case call (Hook i (t s)) (hook (t s)) s of
        (Inl e, s') \<Rightarrow> (Inl e, s')
      | (Inr u, s') \<Rightarrow> run_hooks hooks (Suc i) s')"

text \<open>Lines 93-96: \<^verbatim>\<open>for _ in range(num_envs): t += 1; for hook in step_hooks: ...\<close>.\<close>

fun advance ::
  "(int \<Rightarrow> 'w \<Rightarrow> (raised + unit) \<times> 'w) list \<Rightarrow> nat \<Rightarrow> ('w, 'r) state \<Rightarrow> (raised + unit) \<times> ('w, 'r) state" where
  "advance hooks 0 s = (Inr (), s)"
| "advance hooks (Suc n) s =
     (case run_hooks hooks 0 (s\<lparr>t := t s + 1\<rparr>) of
        (Inl e, s') \<Rightarrow> (Inl e, s')
      | (Inr u, s') \<Rightarrow> advance hooks n s')"

text \<open>
  Lines 98-109. \<^verbatim>\<open>t % log_interval\<close> raises ZeroDivisionError when \<^verbatim>\<open>log_interval\<close> is 0;
  for other values Python's \<^verbatim>\<open>%\<close> on integers is \<open>mod\<close> on \<open>int\<close>.
\<close>

definition logging :: "('w, 'o, 'a, 'r) args \<Rightarrow> ('w, 'r) state \<Rightarrow> (raised + unit) \<times> ('w, 'r) state" where
  "logging c s =
     (case log_interval c of
        None \<Rightarrow> return () s
      | Some li \<Rightarrow>
          if li \<le> t s then
            if li = 0 then raise (Exception ''ZeroDivisionError'') s
            else if t s mod li < num_envs c then
              seq (call LoggerInfo (logger_info c))
                (\<lambda>u. seq (call GetStatistics (get_statistics c))
                  (\<lambda>u. call LoggerInfo (logger_info c))) s
            else return () s
          else return () s)"

text \<open>
  Lines 110-115. The result is whether \<^verbatim>\<open>break\<close> runs. \<^verbatim>\<open>np.sum(episode_idx)\<close> adds the
  32-bit entries in a wider integer.
\<close>

definition evaluation :: "('w, 'o, 'a, 'r::ord) args \<Rightarrow> ('w, 'r) state \<Rightarrow> (raised + bool) \<times> ('w, 'r) state" where
  "evaluation c s =
     (case evaluator c of
        None \<Rightarrow> return False s
      | Some ev \<Rightarrow>
          seq (call (EvaluateIfNecessary (t s) (sum_list (map sint (episode_idx s))))
                 (evaluate_if_necessary ev (t s) (sum_list (map sint (episode_idx s)))))
            (\<lambda>ran s'. return (ran \<and> (case successful_score c of
                                        None \<Rightarrow> False
                                      | Some sc \<Rightarrow> sc \<le> max_score ev (world s'))) s') s)"

text \<open>
  Lines 63-75: the agent acts, the environment steps, rewards and lengths are accumulated,
  the truncation mask is computed and the agent observes. The result is the new
  observations with \<open>resets\<close> and \<open>dones\<close>.
\<close>

definition observe_transition ::
  "('w, 'o, 'a, 'r::{plus,zero,ord}) args \<Rightarrow> 'o \<Rightarrow> ('w, 'r) state \<Rightarrow>
     (raised + 'o \<times> bool list \<times> bool list) \<times> ('w, 'r) state" where
  "observe_transition c obss =
     seq (call BatchActAndTrain (batch_act_and_train c obss))
       (\<lambda>actions. seq (call EnvStep (env_step c actions))
         (\<lambda>(obss', rs, dones) s.
            case broadcast_to (nat (num_envs c)) rs of
              None \<Rightarrow> raise (Exception ''ValueError'') s
            | Some rs' \<Rightarrow>
                (let s' = accumulate rs' s;
                     resets = compute_resets (max_episode_len c) (nat (num_envs c)) (episode_len s')
                 in seq (call (BatchObserveAndTrain dones resets)
                           (batch_observe_and_train c obss' rs dones resets))
                      (\<lambda>u. return (obss', resets, dones)) s')))"

text \<open>
  Lines 78-115: the episodes that ended are closed, the environment is reset with
  \<^verbatim>\<open>not_end\<close>, the step counter advances with the hooks, then logging and evaluation. The
  result is the observations for the next iteration and whether \<^verbatim>\<open>break\<close> ran.
  \<^verbatim>\<open>np.logical_or(resets, dones)\<close> and \<^verbatim>\<open>episode_idx += end\<close> raise ValueError unless
  \<open>dones\<close> broadcasts to \<open>num_envs\<close> entries; no collaborator is called in between.
\<close>

definition conclude_iteration ::
  "('w, 'o, 'a, 'r::{plus,zero,ord}) args \<Rightarrow> bool list \<Rightarrow> bool list \<Rightarrow> ('w, 'r) state \<Rightarrow>
     (raised + 'o \<times> bool) \<times> ('w, 'r) state" where
  "conclude_iteration c resets dones s =
     (case broadcast_to (nat (num_envs c)) dones of
        None \<Rightarrow> raise (Exception ''ValueError'') s
      | Some dones' \<Rightarrow>
          (let ends = end_mask resets dones';
               not_end = not_end_mask ends
           in seq (call (EnvReset (Some not_end)) (env_reset c (Some not_end)))
                (\<lambda>obss'. seq (advance (step_hooks c) (nat (num_envs c)))
                  (\<lambda>u. seq (logging c)
                    (\<lambda>u. seq (evaluation c)
                      (\<lambda>brk. return (obss', brk)))))
                (finalize (nat (return_window_size c)) ends s)))"

definition iteration ::
  "('w, 'o, 'a, 'r::{plus,zero,ord}) args \<Rightarrow> 'o \<Rightarrow> ('w, 'r) state \<Rightarrow>
     (raised + 'o \<times> bool) \<times> ('w, 'r) state" where
  "iteration c obss =
     seq (observe_transition c obss) (\<lambda>(obss', resets, dones). conclude_iteration c resets dones)"

subsection \<open>The loop, the handler and the function\<close>

text \<open>
  Lines 61-115. The loop need not end (with \<^verbatim>\<open>num_envs = 0\<close> the counter never moves), so
  it is a partial function: \<open>None\<close> is a run that never returns.
\<close>

partial_function (option) while_loop ::
  "('w, 'o, 'a, 'r::{plus,zero,ord}) args \<Rightarrow> 'o \<Rightarrow> ('w, 'r) state \<Rightarrow>
     ((raised + exit) \<times> ('w, 'r) state) option" where
  "while_loop c obss s =
     (if t s < steps c then
        (case iteration c obss s of
           (Inl e, s') \<Rightarrow> Some (Inl e, s')
         | (Inr (obss', brk), s') \<Rightarrow>
             if brk then Some (Inr SuccessThreshold, s') else while_loop c obss' s')
      else Some (Inr BudgetExhausted, s))"

declare while_loop.simps [code]

text \<open>Lines 117-123: the \<^verbatim>\<open>except\<close> clause, entered with the exception \<open>e\<close>.\<close>

definition handler ::
  "('w, 'o, 'a, 'r) args \<Rightarrow> raised \<Rightarrow> ('w, 'r) state \<Rightarrow> (raised + exit) \<times> ('w, 'r) state" where
  "handler c e s =
     seq (call (SaveAgent (t s) ''_except'') (save_agent c (t s) ''_except''))
       (\<lambda>u. seq (call EnvClose (env_close c))
         (\<lambda>u. case evaluator c of
                 None \<Rightarrow> raise e
               | Some ev \<Rightarrow> seq (call EvaluatorEnvClose (evaluator_env_close ev)) (\<lambda>u. raise e))) s"

text \<open>Lines 124-126: the \<^verbatim>\<open>else\<close> clause; an exception of \<^verbatim>\<open>save_agent\<close> here is not caught.\<close>

definition finish ::
  "('w, 'o, 'a, 'r) args \<Rightarrow> exit \<Rightarrow> ('w, 'r) state \<Rightarrow> (raised + exit) \<times> ('w, 'r) state" where
  "finish c x s =
     seq (call (SaveAgent (t s) ''_finish'') (save_agent c (t s) ''_finish'')) (\<lambda>u. return x) s"

text \<open>
  Lines 44-58, up to the \<^verbatim>\<open>try\<close>. \<^verbatim>\<open>deque(maxlen=...)\<close> and \<^verbatim>\<open>np.zeros\<close> raise ValueError on
  a negative size; \<^verbatim>\<open>env.reset()\<close> may raise. None of this is inside the \<^verbatim>\<open>try\<close>.
\<close>

definition initial_state :: "('w, 'o, 'a, 'r::zero) args \<Rightarrow> 'w \<Rightarrow> ('w, 'r) state" where
  "initial_state c w =
     \<lparr>world = w, trace = [], t = step_offset c,
      episode_r = replicate (nat (num_envs c)) 0,
      episode_idx = replicate (nat (num_envs c)) 0,
      episode_len = replicate (nat (num_envs c)) 0,
      recent_returns = []\<rparr>"

definition prologue ::
  "('w, 'o, 'a, 'r::zero) args \<Rightarrow> 'w \<Rightarrow> (raised + 'o) \<times> ('w, 'r) state" where
  "prologue c w =
     (if return_window_size c < 0 then raise (Exception ''ValueError'') (initial_state c w)
      else if num_envs c < 0 then raise (Exception ''ValueError'') (initial_state c w)
      else seq (call (EnvReset None) (env_reset c None))
             (\<lambda>obss s. return obss
                (case agent_t c of
                   None \<Rightarrow> s
                 | Some set_t \<Rightarrow> s\<lparr>world := set_t (step_offset c) (world s)\<rparr>))
             (initial_state c w))"

text \<open>Lines 60-126: the \<^verbatim>\<open>try\<close> statement around the loop.\<close>

definition guarded_loop ::
  "('w, 'o, 'a, 'r::{plus,zero,ord}) args \<Rightarrow> 'o \<Rightarrow> ('w, 'r) state \<Rightarrow>
     ((raised + exit) \<times> ('w, 'r) state) option" where
  "guarded_loop c obss s =
     (case while_loop c obss s of
        None \<Rightarrow> None
      | Some (Inl e, s') \<Rightarrow> Some (if caught e then handler c e s' else (Inl e, s'))
      | Some (Inr x, s') \<Rightarrow> Some (finish c x s'))"

definition train_agent_batch ::
  "('w, 'o, 'a, 'r::{plus,zero,ord}) args \<Rightarrow> 'w \<Rightarrow> ((raised + exit) \<times> ('w, 'r) state) option" where
  "train_agent_batch c w =
     (case prologue c w of
        (Inl e, s) \<Rightarrow> Some (Inl e, s)
      | (Inr obss, s) \<Rightarrow> guarded_loop c obss s)"

subsection \<open>Reading a trace\<close>

text \<open>The calls to step hooks, and the step arguments one hook received, in call order.\<close>

fun is_hook :: "event \<Rightarrow> bool" where
  "is_hook (Hook i k) = True"
| "is_hook ev = False"


text \<open>One pass over the hook list at step \<open>k\<close>: every hook once, in registration order.\<close>

definition hook_events :: "'h list \<Rightarrow> int \<Rightarrow> event list" where
  "hook_events hooks k = map (\<lambda>i. Hook i k) [0..<length hooks]"

text \<open>The calls that end a run: saving the agent and closing environments.\<close>

fun is_save :: "event \<Rightarrow> bool" where
  "is_save (SaveAgent k sfx) = True"
| "is_save ev = False"

fun is_close :: "event \<Rightarrow> bool" where
  "is_close EnvClose = True"
| "is_close EvaluatorEnvClose = True"
| "is_close ev = False"


text \<open>The number of batch iterations a trace shows: its calls to \<^verbatim>\<open>env.step\<close>.\<close>

definition iterations :: "event list \<Rightarrow> nat" where
  "iterations evs = length (filter (\<lambda>ev. ev = EnvStep) evs)"

text \<open>The per-slot arrays have \<^verbatim>\<open>num_envs\<close> entries.\<close>

definition wf_state :: "('w, 'o, 'a, 'r) args \<Rightarrow> ('w, 'r) state \<Rightarrow> bool" where
  "wf_state c s \<longleftrightarrow>
     length (episode_r s) = nat (num_envs c) \<and>
     length (episode_idx s) = nat (num_envs c) \<and>
     length (episode_len s) = nat (num_envs c)"

text \<open>What a caller can observe of a run: how it ended, the final \<^verbatim>\<open>t\<close> and the calls made.\<close>

definition outcome ::
  "((raised + exit) \<times> ('w, 'r) state) option \<Rightarrow> ((raised + exit) \<times> int \<times> event list) option" where
  "outcome res = map_option (\<lambda>(r, s). (r, t s, trace s)) res"

text \<open>
  The calls made inside the loop body: everything but saving the agent and closing an
  environment. \<open>extends s s'\<close>: the trace of \<open>s'\<close> is that of \<open>s\<close> followed by such calls.
\<close>

fun loop_event :: "event \<Rightarrow> bool" where
  "loop_event (SaveAgent k sfx) = False"
| "loop_event EnvClose = False"
| "loop_event EvaluatorEnvClose = False"
| "loop_event ev = True"

definition extends :: "('w, 'r) state \<Rightarrow> ('w, 'r) state \<Rightarrow> bool" where
  "extends s s' \<longleftrightarrow>
     take (length (trace s)) (trace s') = trace s \<and>
     list_all loop_event (drop (length (trace s)) (trace s'))"

text \<open>The local variables of the loop are the same in both states.\<close>

definition same_locals :: "('w, 'r) state \<Rightarrow> ('w, 'r) state \<Rightarrow> bool" where
  "same_locals s s' \<longleftrightarrow>
     t s' = t s \<and> episode_r s' = episode_r s \<and> episode_idx s' = episode_idx s \<and>
     episode_len s' = episode_len s \<and> recent_returns s' = recent_returns s"

definition same_arrays :: "('w, 'r) state \<Rightarrow> ('w, 'r) state \<Rightarrow> bool" where
  "same_arrays s s' \<longleftrightarrow>
     episode_r s' = episode_r s \<and> episode_idx s' = episode_idx s \<and>
     episode_len s' = episode_len s \<and> recent_returns s' = recent_returns s"

text \<open>
  What every piece of the loop body guarantees, however it ends: only loop calls are
  added to the trace, and a return window within its bound stays within it.
\<close>

definition progress :: "nat \<Rightarrow> ('w, 'r) state \<Rightarrow> ('w, 'r) state \<Rightarrow> bool" where
  "progress n s s' \<longleftrightarrow>
     extends s s' \<and> (length (recent_returns s) \<le> n \<longrightarrow> length (recent_returns s') \<le> n)"

text \<open>Logging and evaluation calls.\<close>

fun is_report :: "event \<Rightarrow> bool" where
  "is_report LoggerInfo = True"
| "is_report GetStatistics = True"
| "is_report (EvaluateIfNecessary k n) = True"
| "is_report ev = False"

text \<open>The trace without its logging and evaluation calls.\<close>

definition core :: "event list \<Rightarrow> event list" where
  "core evs = filter (\<lambda>ev. \<not> is_report ev) evs"

text \<open>
  The run up to the point where the \<^verbatim>\<open>while\<close> loop is left, before the \<^verbatim>\<open>except\<close> or
  \<^verbatim>\<open>else\<close> clause runs: what was raised inside the loop body, or how the loop ended.
\<close>

definition loop_only ::
  "('w, 'o, 'a, 'r::{plus,zero,ord}) args \<Rightarrow> 'w \<Rightarrow> ((raised + exit) \<times> ('w, 'r) state) option" where
  "loop_only c w =
     (case prologue c w of
        (Inl e, s) \<Rightarrow> None
      | (Inr obss, s) \<Rightarrow> while_loop c obss s)"

text \<open>
  The calls of the \<^verbatim>\<open>except\<close> clause after \<^verbatim>\<open>save_agent\<close>, and whether all its calls,
  made in turn from the state \<open>s\<close>, return instead of raising.
\<close>

definition cleanup_events :: "('w, 'o, 'a, 'r) args \<Rightarrow> event list" where
  "cleanup_events c =
     EnvClose # (case evaluator c of None \<Rightarrow> [] | Some ev \<Rightarrow> [EvaluatorEnvClose])"

definition cleanup_returns :: "('w, 'o, 'a, 'r) args \<Rightarrow> ('w, 'r) state \<Rightarrow> bool" where
  "cleanup_returns c s =
     (case save_agent c (t s) ''_except'' (world s) of
        (Inl e, w1) \<Rightarrow> False
      | (Inr u, w1) \<Rightarrow>
          (case env_close c w1 of
             (Inl e, w2) \<Rightarrow> False
           | (Inr u, w2) \<Rightarrow>
               (case evaluator c of
                  None \<Rightarrow> True
                | Some ev \<Rightarrow>
                    (case evaluator_env_close ev w2 of
                       (Inl e, w3) \<Rightarrow> False
                     | (Inr u, w3) \<Rightarrow> True))))"

text \<open>
  The bookkeeping of a loop that ran \<open>n\<close> iterations from \<open>s\<close> to \<open>s'\<close> and left by \<open>x\<close>:
  the counter moved by \<open>n\<close> times \<^verbatim>\<open>num_envs\<close>, the trace shows \<open>n\<close> more iterations, every
  hook was called once for each value the counter took, the last iteration started below
  the budget, and a loop left by its condition has used the budget up.
\<close>

definition counted ::
  "('w, 'o, 'a, 'r) args \<Rightarrow> ('w, 'r) state \<Rightarrow> exit \<Rightarrow> ('w, 'r) state \<Rightarrow> nat \<Rightarrow> bool" where
  "counted c s x s' n \<longleftrightarrow>
     t s' = t s + int n * int (nat (num_envs c)) \<and>
     iterations (trace s') = iterations (trace s) + n \<and>
     filter is_hook (trace s') = filter is_hook (trace s) @
       concat (map (hook_events (step_hooks c)) [t s + 1..t s']) \<and>
     (0 < n \<longrightarrow> t s' < steps c + int (nat (num_envs c))) \<and>
     (n = 0 \<longrightarrow> \<not> t s < steps c) \<and>
     (x = BudgetExhausted \<longrightarrow> steps c \<le> t s')"


subsection \<open>A small concrete setting\<close>

text \<open>
  Collaborators that never raise, over a world that counts the environment steps taken:
  every reward is 1, no episode ends by itself, there is one step hook and no evaluator.
  \<open>boom\<close> is a collaborator call that raises, \<open>eager_evaluator\<close> an evaluator that
  evaluates at every call and reports the score 1.
\<close>

definition quiet :: "int \<Rightarrow> int \<Rightarrow> int \<Rightarrow> (nat, unit, unit, int) args" where
  "quiet n st off =
     \<lparr>num_envs = n,
      env_reset = (\<lambda>m w. (Inr (), w)),
      env_step = (\<lambda>a w. (Inr ((), replicate (nat n) 1, replicate (nat n) False), Suc w)),
      env_close = (\<lambda>w. (Inr (), w)),
      batch_act_and_train = (\<lambda>ob w. (Inr (), w)),
      batch_observe_and_train = (\<lambda>ob rs ds rst w. (Inr (), w)),
      get_statistics = (\<lambda>w. (Inr (), w)),
      agent_t = None,
      logger_info = (\<lambda>w. (Inr (), w)),
      save_agent = (\<lambda>k sfx w. (Inr (), w)),
      evaluator = None,
      steps = st,
      log_interval = None,
      max_episode_len = None,
      step_offset = off,
      successful_score = None,
      step_hooks = [\<lambda>k w. (Inr (), w)],
      return_window_size = 100\<rparr>"

definition boom :: "string \<Rightarrow> nat \<Rightarrow> (raised + 'x) \<times> nat" where
  "boom msg w = (Inl (Exception msg), w)"

definition eager_evaluator :: "(nat, int) evaluator_ops" where
  "eager_evaluator =
     \<lparr>evaluate_if_necessary = (\<lambda>k n w. (Inr True, w)),
      max_score = (\<lambda>w. 1),
      evaluator_env_close = (\<lambda>w. (Inr (), w))\<rparr>"

section \<open>Properties\<close>

subsection \<open>Sequencing\<close>

lemma seq_Inr: "seq m f s = (Inr y, s') \<Longrightarrow> \<exists>x s1. m s = (Inr x, s1) \<and> f x s1 = (Inr y, s')"
  by (auto simp: seq_def split: prod.splits sum.splits)

lemma seq_any:
  "seq m f s = (r, s') \<Longrightarrow>
     (\<exists>e. m s = (Inl e, s') \<and> r = Inl e) \<or> (\<exists>x s1. m s = (Inr x, s1) \<and> f x s1 = (r, s'))"
  by (auto simp: seq_def split: prod.splits sum.splits)

lemma extends_refl: "extends s s"
  by (simp add: extends_def)

lemma extendsI: "trace s' = trace s @ evs \<Longrightarrow> list_all loop_event evs \<Longrightarrow> extends s s'"
  by (simp add: extends_def)

lemma extendsD: "extends s s' \<Longrightarrow> \<exists>evs. trace s' = trace s @ evs \<and> list_all loop_event evs"
  unfolding extends_def by (metis append_take_drop_id)

lemma extends_trans: "extends s s1 \<Longrightarrow> extends s1 s2 \<Longrightarrow> extends s s2"
proof -
  assume "extends s s1" "extends s1 s2"
  then obtain e1 e2 where "trace s1 = trace s @ e1" "list_all loop_event e1"
    "trace s2 = trace s1 @ e2" "list_all loop_event e2"
    by (blast dest: extendsD)
  then show ?thesis by (intro extendsI [of _ _ "e1 @ e2"]) auto
qed

lemma same_locals_refl: "same_locals s s"
  by (simp add: same_locals_def)

lemma same_locals_trans: "same_locals s s1 \<Longrightarrow> same_locals s1 s2 \<Longrightarrow> same_locals s s2"
  by (simp add: same_locals_def)

lemma call_frame:
  "call ev f s = (r, s') \<Longrightarrow> trace s' = trace s @ [ev] \<and> same_locals s s' \<and> f (world s) = (r, world s')"
  by (auto simp: call_def same_locals_def split: prod.splits)

lemma call_extends: "call ev f s = (r, s') \<Longrightarrow> loop_event ev \<Longrightarrow> extends s s'"
  by (auto dest!: call_frame intro: extendsI)

subsection \<open>Hooks\<close>

lemma run_hooks_ok:
  "run_hooks hooks i s = (Inr u, s') \<Longrightarrow>
     trace s' = trace s @ map (\<lambda>j. Hook j (t s)) [i..<i + length hooks] \<and> same_locals s s'"
proof (induction hooks arbitrary: i s)
  case Nil
  then show ?case by (simp add: same_locals_refl)
next
  case (Cons h hooks)
  from Cons.prems obtain s1 where
    c: "call (Hook i (t s)) (h (t s)) s = (Inr (), s1)" and r: "run_hooks hooks (Suc i) s1 = (Inr u, s')"
    by (auto split: prod.splits sum.splits)
  have "i < i + length (h # hooks)" by simp
  then have "[i..<i + length (h # hooks)] = i # [Suc i..<i + length (h # hooks)]"
    by (rule upt_conv_Cons)
  then have up: "[i..<i + length (h # hooks)] = i # [Suc i..<Suc i + length hooks]"
    by (simp only: length_Cons add_Suc_right add_Suc)
  from call_frame [OF c] have 1: "trace s1 = trace s @ [Hook i (t s)]" "same_locals s s1"
    by simp_all
  then have ts: "t s1 = t s" by (simp add: same_locals_def)
  from Cons.IH [OF r] have 2:
    "trace s' = trace s1 @ map (\<lambda>j. Hook j (t s)) [Suc i..<Suc i + length hooks]" "same_locals s1 s'"
    by (simp_all add: ts)
  from 1 2 show ?case
    unfolding up by (auto intro: same_locals_trans)
qed

lemma run_hooks_any:
  "run_hooks hooks i s = (r, s') \<Longrightarrow> extends s s' \<and> same_locals s s'"
proof (induction hooks arbitrary: i s)
  case Nil
  then show ?case by (simp add: same_locals_refl extends_refl)
next
  case (Cons h hooks)
  obtain r1 s1 where c: "call (Hook i (t s)) (h (t s)) s = (r1, s1)"
    by (cases "call (Hook i (t s)) (h (t s)) s")
  have e: "extends s s1" and l: "same_locals s s1"
    using call_extends [OF c] call_frame [OF c] by simp_all
  show ?case
  proof (cases r1)
    case (Inl e)
    with c Cons.prems have "s' = s1" by simp
    with e l show ?thesis by simp
  next
    case (Inr u)
    with c Cons.prems have r: "run_hooks hooks (Suc i) s1 = (r, s')" by simp
    from e l Cons.IH [OF r] show ?thesis by (blast intro: extends_trans same_locals_trans)
  qed
qed


lemma advance_ok:
  "advance hooks n s = (Inr u, s') \<Longrightarrow>
     trace s' = trace s @ concat (map (hook_events hooks) [t s + 1..t s + int n]) \<and>
     t s' = t s + int n \<and> same_arrays s s'"
proof (induction n arbitrary: s)
  case 0
  then show ?case by (simp add: same_arrays_def)
next
  case (Suc n)
  from Suc.prems obtain s1 where
    h: "run_hooks hooks 0 (s\<lparr>t := t s + 1\<rparr>) = (Inr (), s1)" and r: "advance hooks n s1 = (Inr u, s')"
    by (auto split: prod.splits sum.splits)
  have up: "[t s + 1..t s + int (Suc n)] = (t s + 1) # [t s + 1 + 1..t s + 1 + int n]"
    by (subst upto_rec1) (simp_all add: add.assoc)
  from run_hooks_ok [OF h] have 1: "trace s1 = trace s @ hook_events hooks (t s + 1)"
    and l1: "same_locals (s\<lparr>t := t s + 1\<rparr>) s1"
    by (simp_all add: hook_events_def)
  from l1 have ts: "t s1 = t s + 1" and a1: "same_arrays s s1"
    by (simp_all add: same_locals_def same_arrays_def)
  from Suc.IH [OF r] have 2:
    "trace s' = trace s1 @ concat (map (hook_events hooks) [t s + 1 + 1..t s + 1 + int n])"
    and t2: "t s' = t s + 1 + int n" and a2: "same_arrays s1 s'"
    by (simp_all add: ts)
  have "trace s' = trace s @ concat (map (hook_events hooks) [t s + 1..t s + int (Suc n)])"
    unfolding up 1 2 by simp
  moreover have "t s' = t s + int (Suc n)" using t2 by simp
  moreover have "same_arrays s s'" using a1 a2 by (simp add: same_arrays_def)
  ultimately show ?case by simp
qed

lemma advance_any:
  "advance hooks n s = (r, s') \<Longrightarrow> extends s s' \<and> same_arrays s s'"
proof (induction n arbitrary: s)
  case 0
  then show ?case by (simp add: same_arrays_def extends_refl)
next
  case (Suc n)
  obtain r1 s1 where h: "run_hooks hooks 0 (s\<lparr>t := t s + 1\<rparr>) = (r1, s1)"
    by (cases "run_hooks hooks 0 (s\<lparr>t := t s + 1\<rparr>)")
  from run_hooks_any [OF h] have e: "extends s s1" and l: "same_arrays s s1"
    by (simp_all add: extends_def same_locals_def same_arrays_def)
  show ?case
  proof (cases r1)
    case (Inl e)
    with h Suc.prems have "s' = s1" by simp
    with e l show ?thesis by simp
  next
    case (Inr u)
    with h Suc.prems have r: "advance hooks n s1 = (r, s')" by simp
    from e l Suc.IH [OF r] show ?thesis
      by (auto intro: extends_trans simp: same_arrays_def)
  qed
qed

subsection \<open>Induction over the loop\<close>

lemma while_loop_induct [consumes 1, case_names stop fail brk cont]:
  assumes run: "while_loop c obss s = Some y"
    and stop: "\<And>obss s. \<not> t s < steps c \<Longrightarrow> P obss s (Inr BudgetExhausted, s)"
    and fail: "\<And>obss s e s1. t s < steps c \<Longrightarrow> iteration c obss s = (Inl e, s1) \<Longrightarrow> P obss s (Inl e, s1)"
    and brk: "\<And>obss s obss' s1. t s < steps c \<Longrightarrow> iteration c obss s = (Inr (obss', True), s1) \<Longrightarrow>
                P obss s (Inr SuccessThreshold, s1)"
    and cont: "\<And>obss s obss' s1 y. t s < steps c \<Longrightarrow> iteration c obss s = (Inr (obss', False), s1) \<Longrightarrow>
                P obss' s1 y \<Longrightarrow> P obss s y"
  shows "P obss s y"
proof -
  have "c' = c \<longrightarrow> P obss s y" if "while_loop c' obss s = Some y" for c'
  proof (rule while_loop.raw_induct [where P = "\<lambda>c' obss s y. c' = c \<longrightarrow> P obss s y", OF _ that])
    fix loop c' obss s y
    assume IH: "\<And>c' obss s y. loop c' obss s = Some y \<Longrightarrow> c' = c \<longrightarrow> P obss s y"
      and body: "(if t s < steps c'
          then case iteration c' obss s of
                 (Inl e, s') \<Rightarrow> Some (Inl e, s')
               | (Inr (obss', brk), s') \<Rightarrow>
                   if brk then Some (Inr SuccessThreshold, s') else loop c' obss' s'
          else Some (Inr BudgetExhausted, s)) = Some y"
    show "c' = c \<longrightarrow> P obss s y"
    proof
      assume c: "c' = c"
      show "P obss s y"
      proof (cases "t s < steps c")
        case False
        with body c stop show ?thesis by auto
      next
        case True
        obtain r1 s1 where it: "iteration c obss s = (r1, s1)" by (cases "iteration c obss s")
        show ?thesis
        proof (cases r1)
          case (Inl e)
          with body c True it fail show ?thesis by auto
        next
          case (Inr ob)
          obtain obss' b where ob: "ob = (obss', b)" by (cases ob)
          show ?thesis
          proof (cases b)
            case True
            with body c \<open>t s < steps c\<close> it Inr ob brk show ?thesis by auto
          next
            case False
            with body c \<open>t s < steps c\<close> it Inr ob have "loop c obss' s1 = Some y" by simp
            from IH [OF this] have p: "P obss' s1 y" by simp
            from it Inr ob False have "iteration c obss s = (Inr (obss', False), s1)" by simp
            from cont [OF \<open>t s < steps c\<close> this p] show ?thesis .
          qed
        qed
      qed
    qed
  qed
  with run show ?thesis by blast
qed

subsection \<open>What the loop body preserves\<close>

lemma logging_any: "logging c s = (r, s') \<Longrightarrow> extends s s' \<and> same_locals s s'"
  by (auto simp: logging_def return_def raise_def extends_def same_locals_def
      dest!: seq_any call_frame split: option.splits if_splits)

lemma evaluation_any: "evaluation c s = (r, s') \<Longrightarrow> extends s s' \<and> same_locals s s'"
  by (auto simp: evaluation_def return_def raise_def extends_def same_locals_def
      dest!: seq_any call_frame split: option.splits if_splits)

lemma evaluation_break:
  "evaluation c s = (Inr True, s') \<longleftrightarrow>
     (\<exists>ev sc. evaluator c = Some ev \<and> successful_score c = Some sc \<and>
        call (EvaluateIfNecessary (t s) (sum_list (map sint (episode_idx s))))
          (evaluate_if_necessary ev (t s) (sum_list (map sint (episode_idx s)))) s = (Inr True, s') \<and>
        sc \<le> max_score ev (world s'))"
  by (auto simp: evaluation_def return_def seq_def split: option.splits prod.splits sum.splits)

lemma deque_append_length: "length d \<le> n \<Longrightarrow> length (deque_append n d x) \<le> n"
  by (auto simp: deque_append_def Let_def)

lemma deque_extend_length: "length d \<le> n \<Longrightarrow> length (deque_extend n d xs) \<le> n"
  unfolding deque_extend_def
  by (induction xs arbitrary: d) (simp_all add: deque_append_length)

lemma finalize_frame:
  "trace (finalize n ends s) = trace s \<and> t (finalize n ends s) = t s \<and>
   world (finalize n ends s) = world s"
  by (simp add: finalize_def)

lemma finalize_window:
  "length (recent_returns s) \<le> n \<Longrightarrow> length (recent_returns (finalize n ends s)) \<le> n"
  by (simp add: finalize_def deque_extend_length)

lemma observe_transition_any:
  "observe_transition c obss s = (r, s') \<Longrightarrow>
     extends s s' \<and> t s' = t s \<and> recent_returns s' = recent_returns s \<and>
     episode_idx s' = episode_idx s"
  by (auto simp: observe_transition_def return_def raise_def extends_def same_locals_def
      accumulate_def Let_def
      dest!: seq_any call_frame split: option.splits if_splits prod.splits)


lemma observe_transition_ok:
  "observe_transition c obss s = (Inr (obss', resets, dones), s') \<Longrightarrow>
     trace s' = trace s @ [BatchActAndTrain, EnvStep, BatchObserveAndTrain dones resets] \<and>
     t s' = t s \<and> recent_returns s' = recent_returns s \<and> episode_idx s' = episode_idx s \<and>
     episode_len s' = map (\<lambda>l. l + 1) (episode_len s) \<and>
     (\<exists>rs rs'. broadcast_to (nat (num_envs c)) rs = Some rs' \<and>
        episode_r s' = map2 (+) (episode_r s) rs') \<and>
     resets = compute_resets (max_episode_len c) (nat (num_envs c)) (episode_len s')"
  apply (auto simp: observe_transition_def return_def raise_def same_locals_def
      accumulate_def Let_def
      dest!: seq_Inr call_frame split: option.splits if_splits prod.splits)
  apply blast
  done

lemma progress_refl: "progress n s s"
  by (simp add: progress_def extends_refl)

lemma progress_trans: "progress n s s1 \<Longrightarrow> progress n s1 s2 \<Longrightarrow> progress n s s2"
  by (auto simp: progress_def intro: extends_trans)

lemma seq_progress:
  assumes "seq m f s = (r, s')"
    and "\<And>r1 s1. m s = (r1, s1) \<Longrightarrow> progress n s s1"
    and "\<And>x s1. f x s1 = (r, s') \<Longrightarrow> progress n s1 s'"
  shows "progress n s s'"
  using assms by (auto dest!: seq_any intro: progress_trans)

lemma call_progress: "call ev f s = (r, s') \<Longrightarrow> loop_event ev \<Longrightarrow> progress n s s'"
  by (auto simp: progress_def same_locals_def dest: call_extends call_frame)

lemma advance_progress: "advance hooks k s = (r, s') \<Longrightarrow> progress n s s'"
  by (auto simp: progress_def same_arrays_def dest: advance_any)

lemma logging_progress: "logging c s = (r, s') \<Longrightarrow> progress n s s'"
  by (auto simp: progress_def same_locals_def dest: logging_any)

lemma evaluation_progress: "evaluation c s = (r, s') \<Longrightarrow> progress n s s'"
  by (auto simp: progress_def same_locals_def dest: evaluation_any)

lemma return_progress: "return x s = (r, s') \<Longrightarrow> progress n s s'"
  by (auto simp: return_def progress_refl)

lemma raise_progress: "raise e s = (r, s') \<Longrightarrow> progress n s s'"
  by (auto simp: raise_def progress_refl)

lemma finalize_progress: "progress n s (finalize n ends s)"
  by (simp add: progress_def extends_def finalize_frame finalize_window)

lemma observe_transition_progress: "observe_transition c obss s = (r, s') \<Longrightarrow> progress n s s'"
  by (auto simp: progress_def dest: observe_transition_any)

lemma conclude_iteration_progress:
  "conclude_iteration c resets dones s = (r, s') \<Longrightarrow> progress (nat (return_window_size c)) s s'"
proof (cases "broadcast_to (nat (num_envs c)) dones")
  case None
  assume "conclude_iteration c resets dones s = (r, s')"
  with None show ?thesis by (simp add: conclude_iteration_def raise_def progress_refl)
next
  case (Some dones')
  assume "conclude_iteration c resets dones s = (r, s')"
  with Some have "progress (nat (return_window_size c))
      (finalize (nat (return_window_size c)) (end_mask resets dones') s) s'"
    unfolding conclude_iteration_def Let_def
    by (auto elim!: seq_progress
        intro: call_progress advance_progress logging_progress evaluation_progress return_progress)
  with finalize_progress show ?thesis by (rule progress_trans)
qed

lemma iteration_progress:
  "iteration c obss s = (r, s') \<Longrightarrow> progress (nat (return_window_size c)) s s'"
  unfolding iteration_def
  by (auto elim!: seq_progress intro: observe_transition_progress conclude_iteration_progress)

lemma while_loop_progress:
  "while_loop c obss s = Some (r, s') \<Longrightarrow> progress (nat (return_window_size c)) s s'"
proof -
  have "progress (nat (return_window_size c)) s (snd y)" if "while_loop c obss s = Some y" for y
    using that
    by (induction obss s y rule: while_loop_induct)
      (auto intro: progress_refl iteration_progress progress_trans)
  from this [of "(r, s')"] show "while_loop c obss s = Some (r, s') \<Longrightarrow> ?thesis" by simp
qed

subsection \<open>Iterations that return\<close>

lemma core_append: "core (xs @ ys) = core xs @ core ys"
  by (simp add: core_def)

lemma core_hook_events: "core (hook_events hooks k) = hook_events hooks k"
  by (simp add: core_def hook_events_def filter_map o_def)

lemma core_hooks: "core (concat (map (hook_events hooks) ks)) = concat (map (hook_events hooks) ks)"
  by (induction ks) (simp_all add: core_append core_hook_events, simp add: core_def)

lemma logging_core: "logging c s = (r, s') \<Longrightarrow> core (trace s') = core (trace s)"
  by (auto simp: logging_def return_def raise_def core_def
      dest!: seq_any call_frame split: option.splits if_splits)

lemma evaluation_core: "evaluation c s = (r, s') \<Longrightarrow> core (trace s') = core (trace s)"
  by (auto simp: evaluation_def return_def raise_def core_def
      dest!: seq_any call_frame split: option.splits if_splits)

lemma conclude_iteration_parts:
  assumes "conclude_iteration c resets dones s = (Inr (obss', brk), s')"
  shows "\<exists>dones' s1 s2 s3.
      broadcast_to (nat (num_envs c)) dones = Some dones' \<and>
      call (EnvReset (Some (not_end_mask (end_mask resets dones'))))
        (env_reset c (Some (not_end_mask (end_mask resets dones'))))
        (finalize (nat (return_window_size c)) (end_mask resets dones') s) = (Inr obss', s1) \<and>
      advance (step_hooks c) (nat (num_envs c)) s1 = (Inr (), s2) \<and>
      logging c s2 = (Inr (), s3) \<and>
      evaluation c s3 = (Inr brk, s')"
  using assms unfolding conclude_iteration_def Let_def
  by (auto simp: raise_def return_def dest!: seq_Inr split: option.splits)

lemma conclude_iteration_ok:
  assumes "conclude_iteration c resets dones s = (Inr (obss', brk), s')"
  shows "\<exists>dones'. broadcast_to (nat (num_envs c)) dones = Some dones' \<and>
      core (trace s') = core (trace s) @
        EnvReset (Some (not_end_mask (end_mask resets dones'))) #
        concat (map (hook_events (step_hooks c)) [t s + 1..t s + int (nat (num_envs c))]) \<and>
      t s' = t s + int (nat (num_envs c)) \<and>
      same_arrays (finalize (nat (return_window_size c)) (end_mask resets dones') s) s'"
proof -
  from conclude_iteration_parts [OF assms] obtain dones' s1 s2 s3 where
    b: "broadcast_to (nat (num_envs c)) dones = Some dones'" and
    1: "call (EnvReset (Some (not_end_mask (end_mask resets dones'))))
        (env_reset c (Some (not_end_mask (end_mask resets dones'))))
        (finalize (nat (return_window_size c)) (end_mask resets dones') s) = (Inr obss', s1)" and
    2: "advance (step_hooks c) (nat (num_envs c)) s1 = (Inr (), s2)" and
    3: "logging c s2 = (Inr (), s3)" and
    4: "evaluation c s3 = (Inr brk, s')"
    by blast
  let ?f = "finalize (nat (return_window_size c)) (end_mask resets dones') s"
  from call_frame [OF 1] have f1: "trace s1 = trace s @ [EnvReset (Some (not_end_mask (end_mask resets dones')))]"
    "t s1 = t s" "same_arrays ?f s1"
    by (simp_all add: finalize_frame same_locals_def same_arrays_def)
  from advance_ok [OF 2] have f2:
    "trace s2 = trace s1 @ concat (map (hook_events (step_hooks c)) [t s1 + 1..t s1 + int (nat (num_envs c))])"
    "t s2 = t s1 + int (nat (num_envs c))" "same_arrays s1 s2"
    by simp_all
  from logging_core [OF 3] logging_any [OF 3] have f3: "core (trace s3) = core (trace s2)"
    "t s3 = t s2" "same_arrays s2 s3"
    by (simp_all add: same_locals_def same_arrays_def)
  from evaluation_core [OF 4] evaluation_any [OF 4] have f4: "core (trace s') = core (trace s3)"
    "t s' = t s3" "same_arrays s3 s'"
    by (simp_all add: same_locals_def same_arrays_def)
  have "core (trace s') = core (trace s) @
        EnvReset (Some (not_end_mask (end_mask resets dones'))) #
        concat (map (hook_events (step_hooks c)) [t s + 1..t s + int (nat (num_envs c))])"
    unfolding f4 f3 f2 f1 core_append core_hooks by (simp add: core_def)
  moreover have "t s' = t s + int (nat (num_envs c))"
    unfolding f4 f3 f2 f1 ..
  moreover have "same_arrays ?f s'"
    using f1(3) f2(3) f3(3) f4(3) by (simp add: same_arrays_def)
  ultimately show ?thesis using b by blast
qed

lemma iteration_parts:
  "iteration c obss s = (Inr (obss', brk), s') \<Longrightarrow>
     \<exists>obss1 resets dones s1. observe_transition c obss s = (Inr (obss1, resets, dones), s1) \<and>
        conclude_iteration c resets dones s1 = (Inr (obss', brk), s')"
  unfolding iteration_def by (auto dest!: seq_Inr)

lemma iteration_ok:
  assumes "iteration c obss s = (Inr (obss', brk), s')"
  shows "\<exists>resets dones dones'. broadcast_to (nat (num_envs c)) dones = Some dones' \<and>
      core (trace s') = core (trace s) @
        [BatchActAndTrain, EnvStep, BatchObserveAndTrain dones resets,
         EnvReset (Some (not_end_mask (end_mask resets dones')))] @
        concat (map (hook_events (step_hooks c)) [t s + 1..t s + int (nat (num_envs c))])"
    and "t s' = t s + int (nat (num_envs c))"
proof -
  from iteration_parts [OF assms] obtain obss1 resets dones s1 where
    1: "observe_transition c obss s = (Inr (obss1, resets, dones), s1)" and
    2: "conclude_iteration c resets dones s1 = (Inr (obss', brk), s')"
    by blast
  from observe_transition_ok [OF 1] have
    f1: "trace s1 = trace s @ [BatchActAndTrain, EnvStep, BatchObserveAndTrain dones resets]"
    and t1: "t s1 = t s" by simp_all
  from conclude_iteration_ok [OF 2] obtain dones' where
    b: "broadcast_to (nat (num_envs c)) dones = Some dones'" and
    f2: "core (trace s') = core (trace s1) @
        EnvReset (Some (not_end_mask (end_mask resets dones'))) #
        concat (map (hook_events (step_hooks c)) [t s1 + 1..t s1 + int (nat (num_envs c))])" and
    t2: "t s' = t s1 + int (nat (num_envs c))"
    by blast
  have "core (trace s') = core (trace s) @
        [BatchActAndTrain, EnvStep, BatchObserveAndTrain dones resets,
         EnvReset (Some (not_end_mask (end_mask resets dones')))] @
        concat (map (hook_events (step_hooks c)) [t s + 1..t s + int (nat (num_envs c))])"
    unfolding f2 f1 t1 core_append by (simp add: core_def)
  with b show "\<exists>resets dones dones'. broadcast_to (nat (num_envs c)) dones = Some dones' \<and>
      core (trace s') = core (trace s) @
        [BatchActAndTrain, EnvStep, BatchObserveAndTrain dones resets,
         EnvReset (Some (not_end_mask (end_mask resets dones')))] @
        concat (map (hook_events (step_hooks c)) [t s + 1..t s + int (nat (num_envs c))])"
    by blast
  show "t s' = t s + int (nat (num_envs c))" unfolding t2 t1 ..
qed

subsection \<open>The clauses around the loop\<close>

lemma prologue_ok:
  "prologue c w = (Inr obss, s0) \<Longrightarrow>
     trace s0 = [EnvReset None] \<and> t s0 = step_offset c \<and> wf_state c s0 \<and>
     recent_returns s0 = [] \<and> 0 \<le> num_envs c \<and> 0 \<le> return_window_size c"
  by (auto simp: prologue_def raise_def return_def initial_state_def wf_state_def same_locals_def
      dest!: seq_Inr call_frame split: if_splits option.splits)


lemma handler_raises: "handler c e s = (r, s') \<Longrightarrow> \<exists>e'. r = Inl e'"
  by (auto simp: handler_def raise_def dest!: seq_any call_frame split: option.splits)


lemma handler_returns:
  "cleanup_returns c s \<Longrightarrow>
     \<exists>s'. handler c e s = (Inl e, s') \<and>
       trace s' = trace s @ SaveAgent (t s) ''_except'' # cleanup_events c"
  by (auto simp: cleanup_returns_def cleanup_events_def handler_def seq_def call_def raise_def
      split: prod.splits sum.splits option.splits)

lemma finish_frame:
  "finish c x s = (r, s') \<Longrightarrow>
     same_locals s s' \<and> trace s' = trace s @ [SaveAgent (t s) ''_finish''] \<and>
     (r = Inr x \<or> (\<exists>e. r = Inl e))"
  by (auto simp: finish_def return_def same_locals_def dest!: seq_any call_frame)

lemma train_normal:
  assumes "train_agent_batch c w = Some (Inr x, s)"
  shows "\<exists>obss s0 s1. prologue c w = (Inr obss, s0) \<and> while_loop c obss s0 = Some (Inr x, s1) \<and>
           finish c x s1 = (Inr x, s)"
proof -
  from assms obtain obss s0 where p: "prologue c w = (Inr obss, s0)"
    and g: "guarded_loop c obss s0 = Some (Inr x, s)"
    by (auto simp: train_agent_batch_def split: prod.splits sum.splits)
  from g obtain r1 s1 where l: "while_loop c obss s0 = Some (r1, s1)"
    by (auto simp: guarded_loop_def split: option.splits)
  show ?thesis
  proof (cases r1)
    case (Inl e)
    with g l have "(if caught e then handler c e s1 else (Inl e, s1)) = (Inr x, s)"
      by (simp add: guarded_loop_def)
    then have False by (auto split: if_splits dest: handler_raises)
    then show ?thesis ..
  next
    case (Inr x1)
    with g l have f: "finish c x1 s1 = (Inr x, s)" by (simp add: guarded_loop_def)
    with finish_frame [OF f] have "x1 = x" by auto
    with p l Inr f show ?thesis by auto
  qed
qed

lemma filter_loop_events:
  "list_all loop_event evs \<Longrightarrow> filter is_save evs = [] \<and> filter is_close evs = []"
  by (induction evs) (auto elim: loop_event.elims)

lemma extends_filters:
  assumes "extends s s'"
  shows "filter is_save (trace s') = filter is_save (trace s)"
    and "filter is_close (trace s') = filter is_close (trace s)"
  using extendsD [OF assms] filter_loop_events by auto

lemma outcome_Some:
  "outcome res = Some (r, k, evs) \<longleftrightarrow> (\<exists>s. res = Some (r, s) \<and> t s = k \<and> trace s = evs)"
  by (cases res) (auto simp: outcome_def)

lemma train_normal_trace:
  assumes "train_agent_batch c w = Some (Inr x, s)"
  shows "\<exists>evs. trace s = EnvReset None # evs @ [SaveAgent (t s) ''_finish''] \<and> list_all loop_event evs"
proof -
  from train_normal [OF assms] obtain obss s0 s1 where
    p: "prologue c w = (Inr obss, s0)" and l: "while_loop c obss s0 = Some (Inr x, s1)" and
    f: "finish c x s1 = (Inr x, s)" by blast
  from while_loop_progress [OF l] have "extends s0 s1" by (simp add: progress_def)
  then obtain evs where "trace s1 = trace s0 @ evs" "list_all loop_event evs"
    by (blast dest: extendsD)
  with prologue_ok [OF p] finish_frame [OF f] show ?thesis
    by (auto simp: same_locals_def)
qed


lemma loop_only_Some:
  "loop_only c w = Some y \<longleftrightarrow>
     (\<exists>obss s0. prologue c w = (Inr obss, s0) \<and> while_loop c obss s0 = Some y)"
  by (auto simp: loop_only_def split: prod.splits sum.splits)

lemma loop_only_trace:
  assumes "loop_only c w = Some (r, s1)"
  shows "filter is_save (trace s1) = [] \<and> filter is_close (trace s1) = []"
proof -
  from assms obtain obss s0 where p: "prologue c w = (Inr obss, s0)"
    and l: "while_loop c obss s0 = Some (r, s1)"
    by (auto simp: loop_only_Some)
  from while_loop_progress [OF l] have "extends s0 s1" by (simp add: progress_def)
  from extends_filters [OF this] prologue_ok [OF p] show ?thesis by simp
qed




subsection \<open>Counting steps and hook calls over a run\<close>

lemma upto_join: "a \<le> b \<Longrightarrow> b \<le> c \<Longrightarrow> [a + 1..c] = [a + 1..b] @ [b + 1..c]" for a b c :: int
proof (cases "a = b")
  case True
  then show ?thesis by simp
next
  case False
  assume "a \<le> b" "b \<le> c"
  with False have "a + 1 \<le> b" by simp
  from upto_split2 [OF this \<open>b \<le> c\<close>] show ?thesis .
qed

lemma is_hook_core: "filter is_hook (core evs) = filter is_hook evs"
  by (induction evs) (auto simp: core_def elim: is_hook.elims)

lemma iterations_core: "iterations (core evs) = iterations evs"
  by (induction evs) (auto simp: core_def iterations_def)

lemma is_hook_hook_events:
  "filter is_hook (concat (map (hook_events hooks) ks)) = concat (map (hook_events hooks) ks)"
  by (induction ks) (simp_all add: hook_events_def filter_map o_def)

lemma iterations_hook_events: "iterations (concat (map (hook_events hooks) ks)) = 0"
  by (induction ks) (simp_all add: hook_events_def iterations_def filter_map o_def)

lemma iterations_append: "iterations (xs @ ys) = iterations xs + iterations ys"
  by (simp add: iterations_def)

lemma iteration_counts:
  assumes "iteration c obss s = (Inr (obss', brk), s')"
  shows "t s' = t s + int (nat (num_envs c))"
    and "iterations (trace s') = Suc (iterations (trace s))"
    and "filter is_hook (trace s') = filter is_hook (trace s) @
           concat (map (hook_events (step_hooks c)) [t s + 1..t s + int (nat (num_envs c))])"
proof -
  from iteration_ok(1) [OF assms] obtain resets dones dones' where
    co: "core (trace s') = core (trace s) @
        [BatchActAndTrain, EnvStep, BatchObserveAndTrain dones resets,
         EnvReset (Some (not_end_mask (end_mask resets dones')))] @
        concat (map (hook_events (step_hooks c)) [t s + 1..t s + int (nat (num_envs c))])"
    by blast
  show "t s' = t s + int (nat (num_envs c))" by (rule iteration_ok(2) [OF assms])
  have "iterations (core (trace s')) = Suc (iterations (core (trace s)))"
    unfolding co iterations_append iterations_hook_events by (simp add: iterations_def)
  then show "iterations (trace s') = Suc (iterations (trace s))" by (simp add: iterations_core)
  have "filter is_hook (core (trace s')) = filter is_hook (core (trace s)) @
           concat (map (hook_events (step_hooks c)) [t s + 1..t s + int (nat (num_envs c))])"
    unfolding co by (simp add: is_hook_hook_events)
  then show "filter is_hook (trace s') = filter is_hook (trace s) @
           concat (map (hook_events (step_hooks c)) [t s + 1..t s + int (nat (num_envs c))])"
    by (simp add: is_hook_core)
qed

lemma countedD:
  assumes "counted c s x s' n"
  shows "t s' = t s + int n * int (nat (num_envs c))"
    and "iterations (trace s') = iterations (trace s) + n"
    and "filter is_hook (trace s') = filter is_hook (trace s) @
       concat (map (hook_events (step_hooks c)) [t s + 1..t s'])"
    and "0 < n \<Longrightarrow> t s' < steps c + int (nat (num_envs c))"
    and "n = 0 \<Longrightarrow> \<not> t s < steps c"
    and "x = BudgetExhausted \<Longrightarrow> steps c \<le> t s'"
  using assms unfolding counted_def by blast+

lemma while_loop_counted:
  assumes "while_loop c obss s = Some y"
  shows "\<forall>x s'. y = (Inr x, s') \<longrightarrow> (\<exists>n. counted c s x s' n)"
  using assms
proof (induction obss s y rule: while_loop_induct)
  case (stop obss s)
  have "counted c s BudgetExhausted s 0" using stop by (simp add: counted_def del: int_nat_eq)
  then show ?case by blast
next
  case (fail obss s e s1)
  then show ?case by simp
next
  case (brk obss s obss' s1)
  from iteration_counts [OF brk(2)] brk(1) have "counted c s SuccessThreshold s1 1"
    by (simp add: counted_def del: int_nat_eq)
  then show ?case by blast
next
  case (cont obss s obss' s1 y)
  note ic = iteration_counts [OF cont(2)]
  show ?case
  proof (intro allI impI)
    fix x s'
    assume "y = (Inr x, s')"
    with cont(3) obtain n where n: "counted c s1 x s' n" by blast
    note nd = countedD [OF n]
    have le1: "t s \<le> t s1" unfolding ic(1) by simp
    have le2: "t s1 \<le> t s'" unfolding nd(1) by simp
    have t': "t s' = t s + int (Suc n) * int (nat (num_envs c))"
      unfolding nd(1) ic(1) by (simp add: algebra_simps del: int_nat_eq)
    have it: "iterations (trace s') = iterations (trace s) + Suc n"
      unfolding nd(2) ic(2) by simp
    have s1: "filter is_hook (trace s1) = filter is_hook (trace s) @
           concat (map (hook_events (step_hooks c)) [t s + 1..t s1])"
      unfolding ic(3) ic(1) ..
    have hk: "filter is_hook (trace s') = filter is_hook (trace s) @
       concat (map (hook_events (step_hooks c)) [t s + 1..t s'])"
      unfolding nd(3) s1 upto_join [OF le1 le2] by simp
    have bound: "t s' < steps c + int (nat (num_envs c))"
    proof (cases "n = 0")
      case True
      with nd(1) have "t s' = t s1" by simp
      with ic(1) cont(1) show ?thesis by (simp del: int_nat_eq)
    next
      case False
      with nd(4) show ?thesis by simp
    qed
    have bud: "x = BudgetExhausted \<longrightarrow> steps c \<le> t s'"
      using nd(6) by blast
    have "counted c s x s' (Suc n)"
      unfolding counted_def using t' it hk bound bud by blast
    then show "\<exists>n. counted c s x s' n" ..
  qed
qed

lemma train_counted:
  assumes "train_agent_batch c w = Some (Inr x, s)"
  shows "\<exists>n. t s = step_offset c + int n * num_envs c \<and> iterations (trace s) = n \<and>
     filter is_hook (trace s) = concat (map (hook_events (step_hooks c)) [step_offset c + 1..t s]) \<and>
     0 \<le> num_envs c \<and> (0 < n \<longrightarrow> t s < steps c + num_envs c) \<and>
     (n = 0 \<longrightarrow> \<not> step_offset c < steps c) \<and> (x = BudgetExhausted \<longrightarrow> steps c \<le> t s)"
proof -
  from train_normal [OF assms] obtain obss s0 s1 where
    p: "prologue c w = (Inr obss, s0)" and l: "while_loop c obss s0 = Some (Inr x, s1)" and
    f: "finish c x s1 = (Inr x, s)" by blast
  from while_loop_counted [OF l] obtain n where n: "counted c s0 x s1 n" by blast
  note nd = countedD [OF n]
  from prologue_ok [OF p] have p0: "trace s0 = [EnvReset None]" "t s0 = step_offset c"
    "0 \<le> num_envs c" by simp_all
  from finish_frame [OF f] have f1: "t s = t s1" "trace s = trace s1 @ [SaveAgent (t s1) ''_finish'']"
    by (simp_all add: same_locals_def)
  have N: "int (nat (num_envs c)) = num_envs c" using p0(3) by simp
  have 1: "t s = step_offset c + int n * num_envs c" unfolding f1 nd(1) p0 N ..
  have 2: "iterations (trace s) = n"
    unfolding f1 iterations_append nd(2) p0 by (simp add: iterations_def)
  have 3: "filter is_hook (trace s) = concat (map (hook_events (step_hooks c)) [step_offset c + 1..t s])"
    unfolding f1(2) filter_append nd(3) p0 f1(1) by simp
  have 4: "0 < n \<longrightarrow> t s < steps c + num_envs c" using nd(4) unfolding f1 N by blast
  have 5: "n = 0 \<longrightarrow> \<not> step_offset c < steps c" using nd(5) unfolding p0 by blast
  have 6: "x = BudgetExhausted \<longrightarrow> steps c \<le> t s" using nd(6) unfolding f1 by blast
  from 1 2 3 4 5 6 p0(3) have
    "t s = step_offset c + int n * num_envs c \<and> iterations (trace s) = n \<and>
     filter is_hook (trace s) = concat (map (hook_events (step_hooks c)) [step_offset c + 1..t s]) \<and>
     0 \<le> num_envs c \<and> (0 < n \<longrightarrow> t s < steps c + num_envs c) \<and>
     (n = 0 \<longrightarrow> \<not> step_offset c < steps c) \<and> (x = BudgetExhausted \<longrightarrow> steps c \<le> t s)"
    by blast
  then show ?thesis by (rule exI)
qed

lemma exact_multiple:
  fixes N a b :: int and n :: nat
  assumes k: "k = a + int n * N" and N0: "0 \<le> N" and up: "0 < n \<longrightarrow> k < b + N"
    and zero: "n = 0 \<longrightarrow> \<not> a < b" and ge: "b \<le> k" and le: "a \<le> b" and dv: "N dvd b - a"
  shows "k = b \<and> int n = (b - a) div N"
proof (cases "n = 0")
  case True
  with zero le k have "a = b" "k = b" by simp_all
  with True show ?thesis by simp
next
  case False
  from dv obtain m where m: "b - a = N * m" ..
  from False up have lt: "k < b + N" by simp
  have Npos: "0 < N"
  proof (rule ccontr)
    assume "\<not> 0 < N"
    with N0 have "N = 0" by simp
    with k lt ge show False by simp
  qed
  have "N * m \<le> N * int n" using ge k m by (simp add: algebra_simps)
  with Npos have 1: "m \<le> int n" by (simp add: mult_le_cancel_left_pos)
  have "N * int n < N * (m + 1)" using lt k m by (simp add: algebra_simps)
  with Npos have 2: "int n < m + 1" by (simp add: mult_less_cancel_left_pos)
  from 1 2 have mn: "m = int n" by simp
  with k m have "k = b" by (simp add: algebra_simps)
  moreover from m mn Npos have "(b - a) div N = int n" by simp
  ultimately show ?thesis by simp
qed









lemma budget_exact:
  assumes "train_agent_batch c w = Some (Inr BudgetExhausted, s)"
    and "step_offset c \<le> steps c" and "num_envs c dvd steps c - step_offset c"
  shows "t s = steps c \<and> int (iterations (trace s)) = (steps c - step_offset c) div num_envs c"
proof -
  from train_counted [OF assms(1)] obtain n where
    "t s = step_offset c + int n * num_envs c \<and> iterations (trace s) = n \<and>
     filter is_hook (trace s) = concat (map (hook_events (step_hooks c)) [step_offset c + 1..t s]) \<and>
     0 \<le> num_envs c \<and> (0 < n \<longrightarrow> t s < steps c + num_envs c) \<and>
     (n = 0 \<longrightarrow> \<not> step_offset c < steps c) \<and>
     (BudgetExhausted = BudgetExhausted \<longrightarrow> steps c \<le> t s)" ..
  then have
    n: "t s = step_offset c + int n * num_envs c" "iterations (trace s) = n" "0 \<le> num_envs c"
      "0 < n \<longrightarrow> t s < steps c + num_envs c" "n = 0 \<longrightarrow> \<not> step_offset c < steps c"
      "steps c \<le> t s"
    by blast+
  from exact_multiple [OF n(1) n(3) n(4) n(5) n(6) assms(2) assms(3)] n(2) show ?thesis by simp
qed













subsection \<open>Every run with environments ends\<close>

lemma while_loop_returns:
  assumes "1 \<le> num_envs c"
  shows "\<exists>y. while_loop c obss s = Some y"
proof (induction "nat (steps c - t s)" arbitrary: obss s rule: less_induct)
  case less
  show ?case
  proof (cases "t s < steps c")
    case False
    then show ?thesis by (simp add: while_loop.simps [of c obss s])
  next
    case True
    obtain r1 s1 where it: "iteration c obss s = (r1, s1)" by (cases "iteration c obss s")
    show ?thesis
    proof (cases r1)
      case (Inl e)
      with True it show ?thesis by (simp add: while_loop.simps [of c obss s])
    next
      case (Inr ob)
      obtain obss' brk where ob: "ob = (obss', brk)" by (cases ob)
      show ?thesis
      proof (cases brk)
        case True
        with \<open>t s < steps c\<close> it Inr ob show ?thesis by (simp add: while_loop.simps [of c obss s])
      next
        case False
        from it Inr ob have "iteration c obss s = (Inr (obss', brk), s1)" by simp
        from iteration_ok(2) [OF this] assms have "t s1 = t s + num_envs c" by simp
        with assms \<open>t s < steps c\<close> have "nat (steps c - t s1) < nat (steps c - t s)" by simp
        from less [OF this] obtain y where "while_loop c obss' s1 = Some y" by blast
        with \<open>t s < steps c\<close> it Inr ob False show ?thesis
          by (simp add: while_loop.simps [of c obss s])
      qed
    qed
  qed
qed

lemma guarded_loop_Some: "while_loop c obss s = Some y \<Longrightarrow> \<exists>z. guarded_loop c obss s = Some z"
  by (auto simp: guarded_loop_def split: prod.splits sum.splits)

lemma train_returns:
  assumes "num_envs c \<noteq> 0 \<or> steps c \<le> step_offset c"
  shows "\<exists>r s. train_agent_batch c w = Some (r, s)"
proof (cases "prologue c w")
  case (Pair r0 s0)
  show ?thesis
  proof (cases r0)
    case (Inl e)
    with Pair show ?thesis by (simp add: train_agent_batch_def)
  next
    case (Inr obss)
    with Pair have p: "prologue c w = (Inr obss, s0)" by simp
    from prologue_ok [OF p] have N: "0 \<le> num_envs c" and t0: "t s0 = step_offset c" by simp_all
    have "\<exists>y. while_loop c obss s0 = Some y"
    proof (cases "num_envs c = 0")
      case True
      with assms t0 have "\<not> t s0 < steps c" by simp
      then show ?thesis by (simp add: while_loop.simps [of c obss s0])
    next
      case False
      with N have "1 \<le> num_envs c" by simp
      then show ?thesis by (rule while_loop_returns)
    qed
    then obtain y where "while_loop c obss s0 = Some y" ..
    from guarded_loop_Some [OF this] obtain z where "guarded_loop c obss s0 = Some z" ..
    with p show ?thesis by (cases z) (simp add: train_agent_batch_def)
  qed
qed

lemma outcome_cases:
  assumes "train_agent_batch c w = Some (r, s)"
  shows "(\<exists>e. outcome (train_agent_batch c w) = Some (Inl e, t s, trace s)) \<or>
     outcome (train_agent_batch c w) = Some (Inr SuccessThreshold, t s, trace s) \<or>
     outcome (train_agent_batch c w) = Some (Inr BudgetExhausted, t s, trace s)"
proof (cases r)
  case (Inl e)
  with assms show ?thesis by (simp add: outcome_def)
next
  case (Inr x)
  with assms show ?thesis by (cases x) (simp_all add: outcome_def)
qed

lemma handler_exact:
  "handler c e s =
     (case save_agent c (t s) ''_except'' (world s) of
        (Inl e1, w1) \<Rightarrow> (Inl e1, s\<lparr>world := w1, trace := trace s @ [SaveAgent (t s) ''_except'']\<rparr>)
      | (Inr u, w1) \<Rightarrow>
          (case env_close c w1 of
             (Inl e2, w2) \<Rightarrow>
               (Inl e2, s\<lparr>world := w2, trace := trace s @ [SaveAgent (t s) ''_except'', EnvClose]\<rparr>)
           | (Inr u, w2) \<Rightarrow>
               (case evaluator c of
                  None \<Rightarrow>
                    (Inl e, s\<lparr>world := w2, trace := trace s @ [SaveAgent (t s) ''_except'', EnvClose]\<rparr>)
                | Some ev \<Rightarrow>
                    (case evaluator_env_close ev w2 of
                       (Inl e3, w3) \<Rightarrow>
                         (Inl e3, s\<lparr>world := w3,
                            trace := trace s @ [SaveAgent (t s) ''_except'', EnvClose, EvaluatorEnvClose]\<rparr>)
                     | (Inr u, w3) \<Rightarrow>
                         (Inl e, s\<lparr>world := w3,
                            trace := trace s @ [SaveAgent (t s) ''_except'', EnvClose, EvaluatorEnvClose]\<rparr>)))))"
  by (simp add: handler_def seq_def call_def raise_def split: prod.splits sum.splits option.splits)

lemma handler_outcome:
  assumes "handler c e s = (r, s')"
  shows "\<exists>r' evs. r = Inl r' \<and> t s' = t s \<and>
     trace s' = trace s @ SaveAgent (t s) ''_except'' # evs \<and> list_all is_close evs \<and>
     (cleanup_returns c s \<longrightarrow> r' = e \<and> evs = cleanup_events c) \<and>
     (\<forall>e1 w1. save_agent c (t s) ''_except'' (world s) = (Inl e1, w1) \<longrightarrow> r' = e1 \<and> evs = []) \<and>
     (\<forall>w1 e2 w2. save_agent c (t s) ''_except'' (world s) = (Inr (), w1) \<and>
        env_close c w1 = (Inl e2, w2) \<longrightarrow> r' = e2 \<and> evs = [EnvClose]) \<and>
     (\<forall>w1 w2 ev e3 w3. save_agent c (t s) ''_except'' (world s) = (Inr (), w1) \<and>
        env_close c w1 = (Inr (), w2) \<and> evaluator c = Some ev \<and>
        evaluator_env_close ev w2 = (Inl e3, w3) \<longrightarrow>
        r' = e3 \<and> evs = [EnvClose, EvaluatorEnvClose])"
  using assms unfolding handler_exact cleanup_returns_def cleanup_events_def
  by (auto split: prod.splits sum.splits option.splits)




lemma run_ends:
  assumes "num_envs c \<noteq> 0 \<or> steps c \<le> step_offset c"
  shows "(\<exists>e k evs. outcome (train_agent_batch c w) = Some (Inl e, k, evs)) \<or>
     (\<exists>k evs. outcome (train_agent_batch c w) = Some (Inr SuccessThreshold, k, evs)) \<or>
     (\<exists>k evs. outcome (train_agent_batch c w) = Some (Inr BudgetExhausted, k, evs))"
proof -
  from train_returns [OF assms] obtain r s where "train_agent_batch c w = Some (r, s)" by blast
  from outcome_cases [OF this] show ?thesis by blast
qed


section \<open>The claims\<close>

text \<open>
  C1, as amended. Let an exception \<open>e\<close> that is an instance of \<^verbatim>\<open>Exception\<close>, or a
  \<^verbatim>\<open>KeyboardInterrupt\<close>, be raised inside the loop body, leaving the state \<open>s1\<close>. Up to
  then the loop has neither saved the agent nor closed an environment. The run then ends
  with an exception and the step counter of \<open>s1\<close>; \<^verbatim>\<open>save_agent\<close> is called exactly once,
  first, with the suffix \<^verbatim>\<open>_except\<close> and that step counter, and only close calls follow it.
  When \<^verbatim>\<open>save_agent\<close>, \<^verbatim>\<open>env.close()\<close> and \<^verbatim>\<open>evaluator.env.close()\<close> return instead of
  raising, \<^verbatim>\<open>env.close()\<close> is called, then \<^verbatim>\<open>evaluator.env.close()\<close> when an evaluator is
  present, and the exception the caller receives is \<open>e\<close> itself. When one of these calls
  raises, the caller receives the exception of that call and the calls after it are not
  made: nothing follows a failed \<^verbatim>\<open>save_agent\<close>, only \<^verbatim>\<open>env.close()\<close> precedes its own
  failure, and a failed \<^verbatim>\<open>evaluator.env.close()\<close> is the last call.
\<close>

theorem exception_checkpoint:
  assumes "loop_only c w = Some (Inl e, s1)" and "caught e"
  shows "filter is_save (trace s1) = [] \<and> filter is_close (trace s1) = [] \<and>
     (\<exists>r evs. outcome (train_agent_batch c w) =
          Some (Inl r, t s1, trace s1 @ SaveAgent (t s1) ''_except'' # evs) \<and>
        list_all is_close evs \<and>
        (cleanup_returns c s1 \<longrightarrow> r = e \<and> evs = cleanup_events c) \<and>
        (\<forall>e1 w1. save_agent c (t s1) ''_except'' (world s1) = (Inl e1, w1) \<longrightarrow>
           r = e1 \<and> evs = []) \<and>
        (\<forall>w1 e2 w2. save_agent c (t s1) ''_except'' (world s1) = (Inr (), w1) \<and>
           env_close c w1 = (Inl e2, w2) \<longrightarrow> r = e2 \<and> evs = [EnvClose]) \<and>
        (\<forall>w1 w2 ev e3 w3. save_agent c (t s1) ''_except'' (world s1) = (Inr (), w1) \<and>
           env_close c w1 = (Inr (), w2) \<and> evaluator c = Some ev \<and>
           evaluator_env_close ev w2 = (Inl e3, w3) \<longrightarrow>
           r = e3 \<and> evs = [EnvClose, EvaluatorEnvClose]))"
proof -
  from assms(1) obtain obss s0 where p: "prologue c w = (Inr obss, s0)"
    and l: "while_loop c obss s0 = Some (Inl e, s1)"
    by (auto simp: loop_only_Some)
  from p l assms(2) have tr: "train_agent_batch c w = Some (handler c e s1)"
    by (simp add: train_agent_batch_def guarded_loop_def)
  obtain r s where h: "handler c e s1 = (r, s)" by (cases "handler c e s1")
  from handler_outcome [OF h] obtain r' where "\<exists>evs. r = Inl r' \<and> t s = t s1 \<and>
     trace s = trace s1 @ SaveAgent (t s1) ''_except'' # evs \<and> list_all is_close evs \<and>
     (cleanup_returns c s1 \<longrightarrow> r' = e \<and> evs = cleanup_events c) \<and>
     (\<forall>e1 w1. save_agent c (t s1) ''_except'' (world s1) = (Inl e1, w1) \<longrightarrow> r' = e1 \<and> evs = []) \<and>
     (\<forall>w1 e2 w2. save_agent c (t s1) ''_except'' (world s1) = (Inr (), w1) \<and>
        env_close c w1 = (Inl e2, w2) \<longrightarrow> r' = e2 \<and> evs = [EnvClose]) \<and>
     (\<forall>w1 w2 ev e3 w3. save_agent c (t s1) ''_except'' (world s1) = (Inr (), w1) \<and>
        env_close c w1 = (Inr (), w2) \<and> evaluator c = Some ev \<and>
        evaluator_env_close ev w2 = (Inl e3, w3) \<longrightarrow>
        r' = e3 \<and> evs = [EnvClose, EvaluatorEnvClose])" ..
  then obtain evs where f0: "r = Inl r' \<and> t s = t s1 \<and>
     trace s = trace s1 @ SaveAgent (t s1) ''_except'' # evs \<and> list_all is_close evs \<and>
     (cleanup_returns c s1 \<longrightarrow> r' = e \<and> evs = cleanup_events c) \<and>
     (\<forall>e1 w1. save_agent c (t s1) ''_except'' (world s1) = (Inl e1, w1) \<longrightarrow> r' = e1 \<and> evs = []) \<and>
     (\<forall>w1 e2 w2. save_agent c (t s1) ''_except'' (world s1) = (Inr (), w1) \<and>
        env_close c w1 = (Inl e2, w2) \<longrightarrow> r' = e2 \<and> evs = [EnvClose]) \<and>
     (\<forall>w1 w2 ev e3 w3. save_agent c (t s1) ''_except'' (world s1) = (Inr (), w1) \<and>
        env_close c w1 = (Inr (), w2) \<and> evaluator c = Some ev \<and>
        evaluator_env_close ev w2 = (Inl e3, w3) \<longrightarrow>
        r' = e3 \<and> evs = [EnvClose, EvaluatorEnvClose])" ..
  then have f: "r = Inl r'" "t s = t s1" "trace s = trace s1 @ SaveAgent (t s1) ''_except'' # evs"
    by simp_all
  from tr h f have o: "outcome (train_agent_batch c w) =
          Some (Inl r', t s1, trace s1 @ SaveAgent (t s1) ''_except'' # evs)"
    by (simp add: outcome_def)
  have "\<exists>r evs. outcome (train_agent_batch c w) =
          Some (Inl r, t s1, trace s1 @ SaveAgent (t s1) ''_except'' # evs) \<and>
        list_all is_close evs \<and>
        (cleanup_returns c s1 \<longrightarrow> r = e \<and> evs = cleanup_events c) \<and>
        (\<forall>e1 w1. save_agent c (t s1) ''_except'' (world s1) = (Inl e1, w1) \<longrightarrow>
           r = e1 \<and> evs = []) \<and>
        (\<forall>w1 e2 w2. save_agent c (t s1) ''_except'' (world s1) = (Inr (), w1) \<and>
           env_close c w1 = (Inl e2, w2) \<longrightarrow> r = e2 \<and> evs = [EnvClose]) \<and>
        (\<forall>w1 w2 ev e3 w3. save_agent c (t s1) ''_except'' (world s1) = (Inr (), w1) \<and>
           env_close c w1 = (Inr (), w2) \<and> evaluator c = Some ev \<and>
           evaluator_env_close ev w2 = (Inl e3, w3) \<longrightarrow>
           r = e3 \<and> evs = [EnvClose, EvaluatorEnvClose])"
    by (rule exI [of _ r'], rule exI [of _ evs])
      (rule conjI [OF o f0 [THEN conjunct2, THEN conjunct2, THEN conjunct2]])
  with loop_only_trace [OF assms(1)] show ?thesis by simp
qed

text \<open>
  The environment's step raises in the first iteration. In turn: an evaluator is present
  and the handler's calls return; \<^verbatim>\<open>save_agent\<close> is interrupted; \<^verbatim>\<open>env.close()\<close> raises;
  \<^verbatim>\<open>evaluator.env.close()\<close> raises.
\<close>

theorem exception_checkpoint_witness:
  "loop_only ((quiet 1 2 0)\<lparr>env_step := (\<lambda>a. boom ''step failed''),
                             evaluator := Some eager_evaluator\<rparr>) 0 =
     Some (Inl (Exception ''step failed''),
       \<lparr>world = 0, trace = [EnvReset None, BatchActAndTrain, EnvStep], t = 0,
        episode_r = [0], episode_idx = [0], episode_len = [0], recent_returns = []\<rparr>) \<and>
   caught (Exception ''step failed'') \<and>
   cleanup_returns ((quiet 1 2 0)\<lparr>env_step := (\<lambda>a. boom ''step failed''),
                                   evaluator := Some eager_evaluator\<rparr>)
       \<lparr>world = 0, trace = [EnvReset None, BatchActAndTrain, EnvStep], t = 0,
        episode_r = [0], episode_idx = [0], episode_len = [0], recent_returns = []\<rparr> \<and>
   outcome (train_agent_batch ((quiet 1 2 0)\<lparr>env_step := (\<lambda>a. boom ''step failed''),
                                                evaluator := Some eager_evaluator\<rparr>) 0) =
     Some (Inl (Exception ''step failed''), 0,
       [EnvReset None, BatchActAndTrain, EnvStep,
        SaveAgent 0 ''_except'', EnvClose, EvaluatorEnvClose]) \<and>
   loop_only ((quiet 1 2 0)\<lparr>env_step := (\<lambda>a. boom ''step failed''),
                             save_agent := (\<lambda>k sfx w. (Inl KeyboardInterrupt, w))\<rparr>) 0 =
     Some (Inl (Exception ''step failed''),
       \<lparr>world = 0, trace = [EnvReset None, BatchActAndTrain, EnvStep], t = 0,
        episode_r = [0], episode_idx = [0], episode_len = [0], recent_returns = []\<rparr>) \<and>
   outcome (train_agent_batch ((quiet 1 2 0)\<lparr>env_step := (\<lambda>a. boom ''step failed''),
                      save_agent := (\<lambda>k sfx w. (Inl KeyboardInterrupt, w))\<rparr>) 0) =
     Some (Inl KeyboardInterrupt, 0,
       [EnvReset None, BatchActAndTrain, EnvStep, SaveAgent 0 ''_except'']) \<and>
   loop_only ((quiet 1 2 0)\<lparr>env_step := (\<lambda>a. boom ''step failed''),
                             env_close := boom ''close failed''\<rparr>) 0 =
     Some (Inl (Exception ''step failed''),
       \<lparr>world = 0, trace = [EnvReset None, BatchActAndTrain, EnvStep], t = 0,
        episode_r = [0], episode_idx = [0], episode_len = [0], recent_returns = []\<rparr>) \<and>
   outcome (train_agent_batch ((quiet 1 2 0)\<lparr>env_step := (\<lambda>a. boom ''step failed''),
                      env_close := boom ''close failed''\<rparr>) 0) =
     Some (Inl (Exception ''close failed''), 0,
       [EnvReset None, BatchActAndTrain, EnvStep, SaveAgent 0 ''_except'', EnvClose]) \<and>
   loop_only ((quiet 1 2 0)\<lparr>env_step := (\<lambda>a. boom ''step failed''),
        evaluator := Some (eager_evaluator\<lparr>evaluator_env_close := boom ''eval close failed''\<rparr>)\<rparr>) 0 =
     Some (Inl (Exception ''step failed''),
       \<lparr>world = 0, trace = [EnvReset None, BatchActAndTrain, EnvStep], t = 0,
        episode_r = [0], episode_idx = [0], episode_len = [0], recent_returns = []\<rparr>) \<and>
   outcome (train_agent_batch ((quiet 1 2 0)\<lparr>env_step := (\<lambda>a. boom ''step failed''),
        evaluator := Some (eager_evaluator\<lparr>evaluator_env_close := boom ''eval close failed''\<rparr>)\<rparr>) 0) =
     Some (Inl (Exception ''eval close failed''), 0,
       [EnvReset None, BatchActAndTrain, EnvStep, SaveAgent 0 ''_except'', EnvClose,
        EvaluatorEnvClose])"
proof -
  let ?s = "\<lparr>world = 0 :: nat, trace = [EnvReset None, BatchActAndTrain, EnvStep], t = 0,
        episode_r = [0 :: int], episode_idx = [0], episode_len = [0], recent_returns = []\<rparr>"
  let ?c0 = "(quiet 1 2 0)\<lparr>env_step := (\<lambda>a. boom ''step failed''), evaluator := Some eager_evaluator\<rparr>"
  let ?c1 = "(quiet 1 2 0)\<lparr>env_step := (\<lambda>a. boom ''step failed''),
                save_agent := (\<lambda>k sfx w. (Inl KeyboardInterrupt, w))\<rparr>"
  let ?c2 = "(quiet 1 2 0)\<lparr>env_step := (\<lambda>a. boom ''step failed''), env_close := boom ''close failed''\<rparr>"
  let ?c3 = "(quiet 1 2 0)\<lparr>env_step := (\<lambda>a. boom ''step failed''),
        evaluator := Some (eager_evaluator\<lparr>evaluator_env_close := boom ''eval close failed''\<rparr>)\<rparr>"
  have c: "caught (Exception ''step failed'')" by simp
  have l0: "loop_only ?c0 0 = Some (Inl (Exception ''step failed''), ?s)" by code_simp
  have l1: "loop_only ?c1 0 = Some (Inl (Exception ''step failed''), ?s)" by code_simp
  have l2: "loop_only ?c2 0 = Some (Inl (Exception ''step failed''), ?s)" by code_simp
  have l3: "loop_only ?c3 0 = Some (Inl (Exception ''step failed''), ?s)" by code_simp
  have r: "cleanup_returns ?c0 ?s" by code_simp
  have ev: "cleanup_events ?c0 = [EnvClose, EvaluatorEnvClose]"
    by (simp add: cleanup_events_def quiet_def)
  from exception_checkpoint [OF l0 c] r ev have o0:
    "outcome (train_agent_batch ?c0 0) =
       Some (Inl (Exception ''step failed''), 0,
         [EnvReset None, BatchActAndTrain, EnvStep,
          SaveAgent 0 ''_except'', EnvClose, EvaluatorEnvClose])"
    by auto
  have s1: "save_agent ?c1 (t ?s) ''_except'' (world ?s) = (Inl KeyboardInterrupt, 0)"
    by (simp add: quiet_def)
  from exception_checkpoint [OF l1 c] s1 have o1:
    "outcome (train_agent_batch ?c1 0) =
       Some (Inl KeyboardInterrupt, 0,
         [EnvReset None, BatchActAndTrain, EnvStep, SaveAgent 0 ''_except''])"
    by auto
  have s2: "save_agent ?c2 (t ?s) ''_except'' (world ?s) = (Inr (), 0)"
    "env_close ?c2 0 = (Inl (Exception ''close failed''), 0)"
    by (simp_all add: quiet_def boom_def)
  from exception_checkpoint [OF l2 c] s2 have o2:
    "outcome (train_agent_batch ?c2 0) =
       Some (Inl (Exception ''close failed''), 0,
         [EnvReset None, BatchActAndTrain, EnvStep, SaveAgent 0 ''_except'', EnvClose])"
    by auto
  have s3: "save_agent ?c3 (t ?s) ''_except'' (world ?s) = (Inr (), 0)"
    "env_close ?c3 0 = (Inr (), 0)"
    "evaluator ?c3 = Some (eager_evaluator\<lparr>evaluator_env_close := boom ''eval close failed''\<rparr>)"
    "evaluator_env_close (eager_evaluator\<lparr>evaluator_env_close := boom ''eval close failed''\<rparr>) 0 =
       (Inl (Exception ''eval close failed''), 0)"
    by (simp_all add: quiet_def boom_def)
  from exception_checkpoint [OF l3 c] s3 have o3:
    "outcome (train_agent_batch ?c3 0) =
       Some (Inl (Exception ''eval close failed''), 0,
         [EnvReset None, BatchActAndTrain, EnvStep, SaveAgent 0 ''_except'', EnvClose,
          EvaluatorEnvClose])"
    by auto
  from l0 c r o0 l1 o1 l2 o2 l3 o3 show ?thesis by (intro conjI)
qed

text \<open>
  C1 as stated fails when a call of the handler raises: here the environment's step
  raises in the first iteration and \<^verbatim>\<open>save_agent\<close> raises in turn. \<^verbatim>\<open>env.close()\<close> is
  never called, and the caller receives the exception of \<^verbatim>\<open>save_agent\<close>, not the original
  one.
\<close>

theorem exception_checkpoint_counterexample:
  "outcome (loop_only ((quiet 1 2 0)\<lparr>env_step := (\<lambda>a. boom ''step failed''),
                                      save_agent := (\<lambda>k sfx. boom ''disk full'')\<rparr>) 0) =
     Some (Inl (Exception ''step failed''), 0, [EnvReset None, BatchActAndTrain, EnvStep]) \<and>
   outcome (train_agent_batch ((quiet 1 2 0)\<lparr>env_step := (\<lambda>a. boom ''step failed''),
                                              save_agent := (\<lambda>k sfx. boom ''disk full'')\<rparr>) 0) =
     Some (Inl (Exception ''disk full''), 0,
       [EnvReset None, BatchActAndTrain, EnvStep, SaveAgent 0 ''_except''])"
  by code_simp




text \<open>
  C3, as amended. \<^verbatim>\<open>steps\<close> is the value of the step counter at which the loop stops, not
  a number of steps to add to \<^verbatim>\<open>step_offset\<close>. For every \<^verbatim>\<open>step_offset\<close> at most \<^verbatim>\<open>steps\<close>
  with \<^verbatim>\<open>steps - step_offset\<close> a multiple of \<^verbatim>\<open>num_envs\<close>, every run ends: with an
  exception, by the success-threshold exit, or by budget exhaustion. A run that ends by
  budget exhaustion has performed exactly \<^verbatim>\<open>(steps - step_offset) / num_envs\<close> batch
  iterations and leaves the step counter at \<^verbatim>\<open>steps\<close>. With \<^verbatim>\<open>step_offset = 0\<close> these are
  \<^verbatim>\<open>steps / num_envs\<close> iterations and the counter \<^verbatim>\<open>step_offset + steps\<close>.
\<close>

theorem budget_exhausted_iterations:
  assumes "step_offset c \<le> steps c"
    and "num_envs c dvd steps c - step_offset c"
  shows "((\<exists>e k evs. outcome (train_agent_batch c w) = Some (Inl e, k, evs)) \<or>
      (\<exists>k evs. outcome (train_agent_batch c w) = Some (Inr SuccessThreshold, k, evs)) \<or>
      (\<exists>k evs. outcome (train_agent_batch c w) = Some (Inr BudgetExhausted, k, evs))) \<and>
     (\<forall>k evs. outcome (train_agent_batch c w) = Some (Inr BudgetExhausted, k, evs) \<longrightarrow>
        int (iterations evs) = (steps c - step_offset c) div num_envs c \<and> k = steps c \<and>
        (step_offset c = 0 \<longrightarrow> int (iterations evs) = steps c div num_envs c \<and>
           k = step_offset c + steps c))"
proof -
  have "num_envs c \<noteq> 0 \<or> steps c \<le> step_offset c"
  proof (cases "num_envs c = 0")
    case True
    with assms(2) show ?thesis by simp
  next
    case False
    then show ?thesis ..
  qed
  note ends = run_ends [OF this, of w]
  have "int (iterations evs) = (steps c - step_offset c) div num_envs c \<and> k = steps c \<and>
        (step_offset c = 0 \<longrightarrow> int (iterations evs) = steps c div num_envs c \<and>
           k = step_offset c + steps c)"
    if "outcome (train_agent_batch c w) = Some (Inr BudgetExhausted, k, evs)" for k evs
  proof -
    from that obtain s where "train_agent_batch c w = Some (Inr BudgetExhausted, s)"
      and s: "t s = k" "trace s = evs"
      by (auto simp: outcome_Some)
    from budget_exact [OF this(1) assms(1) assms(2)] s show ?thesis by auto
  qed
  with ends show ?thesis by blast
qed

text \<open>
  Two environments, from step 1 to step 5: two iterations.
\<close>

theorem budget_exhausted_iterations_witness:
  "outcome (train_agent_batch (quiet 2 5 1) 0) =
     Some (Inr BudgetExhausted, 5,
       [EnvReset None,
        BatchActAndTrain, EnvStep, BatchObserveAndTrain [False, False] [False, False],
        EnvReset (Some [True, True]), Hook 0 2, Hook 0 3,
        BatchActAndTrain, EnvStep, BatchObserveAndTrain [False, False] [False, False],
        EnvReset (Some [True, True]), Hook 0 4, Hook 0 5,
        SaveAgent 5 ''_finish'']) \<and>
   step_offset (quiet 2 5 1) \<le> steps (quiet 2 5 1) \<and>
   num_envs (quiet 2 5 1) dvd steps (quiet 2 5 1) - step_offset (quiet 2 5 1) \<and>
   int (iterations
       [EnvReset None,
        BatchActAndTrain, EnvStep, BatchObserveAndTrain [False, False] [False, False],
        EnvReset (Some [True, True]), Hook 0 2, Hook 0 3,
        BatchActAndTrain, EnvStep, BatchObserveAndTrain [False, False] [False, False],
        EnvReset (Some [True, True]), Hook 0 4, Hook 0 5,
        SaveAgent 5 ''_finish'']) = (5 - 1) div 2 \<and>
   (5 :: int) = steps (quiet 2 5 1)"
proof -
  let ?evs = "[EnvReset None,
        BatchActAndTrain, EnvStep, BatchObserveAndTrain [False, False] [False, False],
        EnvReset (Some [True, True]), Hook 0 2, Hook 0 3,
        BatchActAndTrain, EnvStep, BatchObserveAndTrain [False, False] [False, False],
        EnvReset (Some [True, True]), Hook 0 4, Hook 0 5,
        SaveAgent 5 ''_finish'']"
  have run: "outcome (train_agent_batch (quiet 2 5 1) 0) = Some (Inr BudgetExhausted, 5, ?evs)"
    by code_simp
  have le: "step_offset (quiet 2 5 1) \<le> steps (quiet 2 5 1)" by (simp add: quiet_def)
  have dv: "num_envs (quiet 2 5 1) dvd steps (quiet 2 5 1) - step_offset (quiet 2 5 1)"
    by (simp add: quiet_def)
  from budget_exhausted_iterations [OF le dv, of 0, THEN conjunct2, rule_format, OF run] have
    "int (iterations ?evs) = (steps (quiet 2 5 1) - step_offset (quiet 2 5 1)) div num_envs (quiet 2 5 1) \<and>
     5 = steps (quiet 2 5 1)"
    by (elim conjE) (rule conjI)
  with run le dv show ?thesis by (simp add: quiet_def)
qed

text \<open>
  C3 as stated fails for a nonzero offset: with one environment, \<^verbatim>\<open>steps = 2\<close> and
  \<^verbatim>\<open>step_offset = 1\<close> the run performs one iteration, not two, and the counter ends at 2, not
  at 3.
\<close>

theorem budget_exhausted_iterations_counterexample:
  "outcome (train_agent_batch (quiet 1 2 1) 0) =
     Some (Inr BudgetExhausted, 2,
       [EnvReset None, BatchActAndTrain, EnvStep, BatchObserveAndTrain [False] [False],
        EnvReset (Some [True]), Hook 0 2, SaveAgent 2 ''_finish'']) \<and>
   iterations [EnvReset None, BatchActAndTrain, EnvStep, BatchObserveAndTrain [False] [False],
        EnvReset (Some [True]), Hook 0 2, SaveAgent 2 ''_finish''] = 1 \<and>
   num_envs (quiet 1 2 1) = 1 \<and> steps (quiet 1 2 1) = 2 \<and> step_offset (quiet 1 2 1) = 1 \<and>
   (2 :: int) mod 1 = 0 \<and> (1 :: int) \<noteq> 2 div 1 \<and> (2 :: int) \<noteq> 1 + 2"
  by code_simp















text \<open>
  C10. On every normal termination of \<^verbatim>\<open>train_agent_batch\<close>, by budget exhaustion or by
  the success-threshold exit, the loop has called neither \<^verbatim>\<open>env.close()\<close> nor
  \<^verbatim>\<open>evaluator.env.close()\<close>: environments are closed on the exception path only.
\<close>

theorem no_close_on_normal_termination:
  "outcome (train_agent_batch c w) = Some (Inr x, k, evs) \<Longrightarrow>
     EnvClose \<notin> set evs \<and> EvaluatorEnvClose \<notin> set evs"
proof -
  assume "outcome (train_agent_batch c w) = Some (Inr x, k, evs)"
  then obtain s where "train_agent_batch c w = Some (Inr x, s)" and evs: "trace s = evs"
    by (auto simp: outcome_Some)
  from train_normal_trace [OF this(1)] obtain mid where
    tr: "trace s = EnvReset None # mid @ [SaveAgent (t s) ''_finish'']" and le: "list_all loop_event mid"
    by blast
  from le have "EnvClose \<notin> set mid" "EvaluatorEnvClose \<notin> set mid"
    by (auto simp: list_all_iff)
  with tr evs show ?thesis by auto
qed

theorem no_close_on_normal_termination_witness:
  "outcome (train_agent_batch (quiet 2 4 0) 0) =
     Some (Inr BudgetExhausted, 4,
       [EnvReset None,
        BatchActAndTrain, EnvStep, BatchObserveAndTrain [False, False] [False, False],
        EnvReset (Some [True, True]), Hook 0 1, Hook 0 2,
        BatchActAndTrain, EnvStep, BatchObserveAndTrain [False, False] [False, False],
        EnvReset (Some [True, True]), Hook 0 3, Hook 0 4,
        SaveAgent 4 ''_finish'']) \<and>
   EnvClose \<notin> set [EnvReset None,
        BatchActAndTrain, EnvStep, BatchObserveAndTrain [False, False] [False, False],
        EnvReset (Some [True, True]), Hook 0 1, Hook 0 2,
        BatchActAndTrain, EnvStep, BatchObserveAndTrain [False, False] [False, False],
        EnvReset (Some [True, True]), Hook 0 3, Hook 0 4,
        SaveAgent 4 ''_finish''] \<and>
   EvaluatorEnvClose \<notin> set [EnvReset None,
        BatchActAndTrain, EnvStep, BatchObserveAndTrain [False, False] [False, False],
        EnvReset (Some [True, True]), Hook 0 1, Hook 0 2,
        BatchActAndTrain, EnvStep, BatchObserveAndTrain [False, False] [False, False],
        EnvReset (Some [True, True]), Hook 0 3, Hook 0 4,
        SaveAgent 4 ''_finish'']"
proof -
  have run: "outcome (train_agent_batch (quiet 2 4 0) 0) =
     Some (Inr BudgetExhausted, 4,
       [EnvReset None,
        BatchActAndTrain, EnvStep, BatchObserveAndTrain [False, False] [False, False],
        EnvReset (Some [True, True]), Hook 0 1, Hook 0 2,
        BatchActAndTrain, EnvStep, BatchObserveAndTrain [False, False] [False, False],
        EnvReset (Some [True, True]), Hook 0 3, Hook 0 4,
        SaveAgent 4 ''_finish''])"
    by code_simp
  from no_close_on_normal_termination [OF run] run show ?thesis by simp
qed

end
